theory Spec2Isabelle
  imports Main "HOL-Library.Word" "HOL-Library.Multiset" "HOL-Library.Char_ord"
    "HOL-Library.List_Lexorder"
begin

section \<open>Chained hash tables of libvirt (src/util/virhash.c)\<close>

text \<open>
  The embedding follows virhash.c function by function.

  \<^item> \<open>size_t\<close> is a 64-bit word (LP64) and \<open>uint32_t\<close> a 32-bit word, both with the
    wrap-around of C; an \<open>ssize_t\<close> result is the same 64 bits, read with \<open>sint\<close>, so that
    \<open>-1\<close> is the word of all ones.  An \<open>int\<close> result is only ever compared with 0 and
    is an \<open>int\<close> here.
  \<^item> A \<open>void *\<close> payload and a function pointer are addresses (\<open>nat\<close>), \<open>NULL\<close> is 0.
    A C string is the list of its bytes before the terminating NUL; a \<open>const char *\<close>
    argument is a \<open>string option\<close>, \<open>None\<close> for \<open>NULL\<close>.
  \<^item> A bucket chain (entries linked through \<open>next\<close>) is the list of its entries, head
    first; an entry is identified by its position in its chain.  The bucket array
    \<open>table->table\<close> is a list of chains.
  \<^item> Table objects live in a store indexed by their address, so that two
    \<open>virHashTablePtr\<close> can be compared as pointers; every address but \<open>NULL\<close> holds a
    table.
  \<^item> Calls of the \<open>dataFree\<close> callback and of \<open>virReportError\<close> are recorded, in order,
    in the state.  The other callbacks are functions of their arguments and of the
    caller's opaque data, which they return as they leave it.
  \<^item> \<open>virHashCodeGen\<close> is declared in virhashcode.h and defined outside virhash.c; it is
    the parameter \<open>H\<close> of every function that hashes.  \<open>g_new0\<close> aborts the process
    rather than return \<open>NULL\<close> for a count that is not zero, so allocation has no error
    branch.
\<close>

subsection \<open>Data\<close>

type_synonym size_t = "64 word"
type_synonym uint32_t = "32 word"
type_synonym ptr = nat
type_synonym virHashTablePtr = nat
type_synonym virHashDataFree = nat
type_synonym virHashCodeGen = "string \<Rightarrow> size_t \<Rightarrow> uint32_t \<Rightarrow> uint32_t"

abbreviation NULL :: nat where "NULL \<equiv> 0"

definition MAX_HASH_LEN :: size_t where
  "MAX_HASH_LEN = 8"

record virHashEntry =
  name :: string
  payload :: ptr

record virHashTable =
  table :: "virHashEntry list list"
  seed :: uint32_t
  size_tab :: size_t
  nbElems :: size_t
  dataFree :: virHashDataFree

datatype virError = VIR_ERR_INTERNAL_ERROR string string

record world =
  heap :: "virHashTablePtr \<Rightarrow> virHashTable"
  freed :: "(virHashDataFree \<times> ptr) list"
  errors :: "virError list"

record virHashKeyValuePair =
  key :: "string option"
  value_kv :: ptr

record virHashEqualData =
  equal_vhed :: bool
  table2 :: virHashTablePtr
  compar :: "ptr \<Rightarrow> ptr \<Rightarrow> int"

type_synonym 'o virHashIterator = "ptr \<Rightarrow> string \<Rightarrow> 'o \<Rightarrow> int \<times> 'o"
type_synonym 'o virHashSearcher = "ptr \<Rightarrow> string \<Rightarrow> 'o \<Rightarrow> int \<times> 'o"
type_synonym virHashValueComparator = "ptr \<Rightarrow> ptr \<Rightarrow> int"

subsection \<open>Hashing and construction\<close>

definition strlen :: "string \<Rightarrow> size_t" where
  "strlen s = of_nat (length s)"

definition virHashComputeKey :: "virHashCodeGen \<Rightarrow> virHashTable \<Rightarrow> string \<Rightarrow> size_t" where
  "virHashComputeKey H t n =
     (let v = H n (strlen n) (seed t) in ucast v mod size_tab t)"

text \<open>
  \<open>virHashNew\<close>: the address \<open>p\<close> returned by \<open>g_new0\<close> and the 32 bits \<open>rnd\<close> returned
  by \<open>virRandomBits\<close> are inputs of the model.
\<close>

definition virHashNew :: "virHashTablePtr \<Rightarrow> uint32_t \<Rightarrow> virHashDataFree \<Rightarrow> world
    \<Rightarrow> virHashTablePtr \<times> world" where
  "virHashNew p rnd df w =
     (let t = \<lparr>table = replicate 32 [], seed = rnd, size_tab = 32, nbElems = 0,
                dataFree = df\<rparr>
      in (p, w\<lparr>heap := (heap w)(p := t)\<rparr>))"

subsection \<open>Growing\<close>

text \<open>
  The inner \<open>while (iter)\<close> loop of \<open>virHashGrow\<close>: every entry of an old chain, in chain
  order, is pushed on the front of its new bucket.
\<close>

fun rechain :: "virHashCodeGen \<Rightarrow> virHashEntry list \<Rightarrow> virHashTable \<Rightarrow> virHashTable" where
  "rechain H [] t = t"
| "rechain H (e # es) t =
     (let k = unat (virHashComputeKey H t (name e))
      in rechain H es (t\<lparr>table := (table t)[k := e # (table t ! k)]\<rparr>))"

text \<open>
  The test \<open>oldtable == NULL\<close> of the source has no branch here: the bucket array of a
  table is a list, which \<open>virHashNew\<close> and \<open>virHashGrow\<close> always allocate.
\<close>

definition virHashGrow :: "virHashCodeGen \<Rightarrow> virHashTablePtr \<Rightarrow> size_t \<Rightarrow> world
    \<Rightarrow> int \<times> world" where
  "virHashGrow H p sz w =
     (if p = NULL then (-1, w)
      else if sz < 8 then (-1, w)
      else if sz > 8 * 2048 then (-1, w)
      else
        let t = heap w p;
            oldsize = size_tab t;
            oldtable = table t;
            t1 = t\<lparr>table := replicate (unat sz) [], size_tab := sz\<rparr>;
            t2 = fold (\<lambda>i. rechain H (oldtable ! i)) [0..<unat oldsize] t1
        in (0, w\<lparr>heap := (heap w)(p := t2)\<rparr>))"

subsection \<open>Insertion, lookup, removal\<close>

text \<open>
  The chain walk shared by insertion, lookup and removal: the position of the first
  entry whose name is \<open>STREQ\<close> to \<open>n\<close>.
\<close>

fun chain_index :: "string \<Rightarrow> virHashEntry list \<Rightarrow> nat option" where
  "chain_index n [] = None"
| "chain_index n (e # es) =
     (if name e = n then Some 0 else map_option Suc (chain_index n es))"

definition virHashAddOrUpdateEntry :: "virHashCodeGen \<Rightarrow> virHashTablePtr \<Rightarrow> string option
    \<Rightarrow> ptr \<Rightarrow> bool \<Rightarrow> world \<Rightarrow> int \<times> world" where
  "virHashAddOrUpdateEntry H p nm userdata is_update w =
     (case nm of
        None \<Rightarrow> (-1, w)
      | Some n \<Rightarrow>
          if p = NULL then (-1, w)
          else
            let t = heap w p;
                k = unat (virHashComputeKey H t n);
                chain = table t ! k
            in (case chain_index n chain of
                 Some i \<Rightarrow>
                   if is_update then
                     let entry = chain ! i;
                         w1 = (if dataFree t \<noteq> NULL
                               then w\<lparr>freed := freed w @ [(dataFree t, payload entry)]\<rparr>
                               else w);
                         t1 = t\<lparr>table :=
                                 (table t)[k := chain[i := entry\<lparr>payload := userdata\<rparr>]]\<rparr>
                     in (0, w1\<lparr>heap := (heap w1)(p := t1)\<rparr>)
                   else
                     (-1, w\<lparr>errors := errors w @
                             [VIR_ERR_INTERNAL_ERROR ''Duplicate hash table key'' n]\<rparr>)
               | None \<Rightarrow>
                   let len = (of_nat (length chain) :: size_t);
                       entry = \<lparr>name = n, payload = userdata\<rparr>;
                       t1 = t\<lparr>table := (table t)[k := chain @ [entry]],
                              nbElems := nbElems t + 1\<rparr>;
                       w1 = w\<lparr>heap := (heap w)(p := t1)\<rparr>
                   in if len > MAX_HASH_LEN
                      then (0, snd (virHashGrow H p (MAX_HASH_LEN * size_tab t1) w1))
                      else (0, w1)))"

definition virHashAddEntry :: "virHashCodeGen \<Rightarrow> virHashTablePtr \<Rightarrow> string option \<Rightarrow> ptr
    \<Rightarrow> world \<Rightarrow> int \<times> world" where
  "virHashAddEntry H p nm userdata w = virHashAddOrUpdateEntry H p nm userdata False w"

definition virHashUpdateEntry :: "virHashCodeGen \<Rightarrow> virHashTablePtr \<Rightarrow> string option \<Rightarrow> ptr
    \<Rightarrow> world \<Rightarrow> int \<times> world" where
  "virHashUpdateEntry H p nm userdata w = virHashAddOrUpdateEntry H p nm userdata True w"

definition virHashGetEntry :: "virHashCodeGen \<Rightarrow> virHashTablePtr \<Rightarrow> string option \<Rightarrow> world
    \<Rightarrow> virHashEntry option" where
  "virHashGetEntry H p nm w =
     (case nm of
        None \<Rightarrow> None
      | Some n \<Rightarrow>
          if p = NULL then None
          else
            let t = heap w p;
                k = unat (virHashComputeKey H t n);
                chain = table t ! k
            in map_option (\<lambda>i. chain ! i) (chain_index n chain))"

definition virHashLookup :: "virHashCodeGen \<Rightarrow> virHashTablePtr \<Rightarrow> string option \<Rightarrow> world
    \<Rightarrow> ptr" where
  "virHashLookup H p nm w =
     (case virHashGetEntry H p nm w of None \<Rightarrow> NULL | Some entry \<Rightarrow> payload entry)"

definition virHashHasEntry :: "virHashCodeGen \<Rightarrow> virHashTablePtr \<Rightarrow> string option \<Rightarrow> world
    \<Rightarrow> bool" where
  "virHashHasEntry H p nm w = (virHashGetEntry H p nm w \<noteq> None)"

definition virHashSize :: "virHashTablePtr \<Rightarrow> world \<Rightarrow> size_t" where
  "virHashSize p w = (if p = NULL then -1 else nbElems (heap w p))"

definition virHashRemoveEntry :: "virHashCodeGen \<Rightarrow> virHashTablePtr \<Rightarrow> string option \<Rightarrow> world
    \<Rightarrow> int \<times> world" where
  "virHashRemoveEntry H p nm w =
     (case nm of
        None \<Rightarrow> (-1, w)
      | Some n \<Rightarrow>
          if p = NULL then (-1, w)
          else
            let t = heap w p;
                k = unat (virHashComputeKey H t n);
                chain = table t ! k
            in (case chain_index n chain of
                 Some i \<Rightarrow>
                   let entry = chain ! i;
                       w1 = (if dataFree t \<noteq> NULL
                             then w\<lparr>freed := freed w @ [(dataFree t, payload entry)]\<rparr>
                             else w);
                       t1 = t\<lparr>table := (table t)[k := take i chain @ drop (Suc i) chain],
                              nbElems := nbElems t - 1\<rparr>
                   in (0, w1\<lparr>heap := (heap w1)(p := t1)\<rparr>)
               | None \<Rightarrow> (-1, w)))"

definition virHashSteal :: "virHashCodeGen \<Rightarrow> virHashTablePtr \<Rightarrow> string option \<Rightarrow> world
    \<Rightarrow> ptr \<times> world" where
  "virHashSteal H p nm w =
     (let data = virHashLookup H p nm w
      in if data \<noteq> NULL then
           let df = dataFree (heap w p);
               w1 = w\<lparr>heap := (heap w)(p := (heap w p)\<lparr>dataFree := NULL\<rparr>)\<rparr>;
               w2 = snd (virHashRemoveEntry H p nm w1);
               w3 = w2\<lparr>heap := (heap w2)(p := (heap w2 p)\<lparr>dataFree := df\<rparr>)\<rparr>
           in (data, w3)
         else (data, w))"

subsection \<open>Iteration\<close>

text \<open>
  A callback is a function of the payload, the name and the caller's opaque data that
  returns its \<open>int\<close> result and the opaque data as it left them; a null callback
  pointer is \<open>None\<close>.  The first loop is the \<open>while (entry)\<close> loop over one chain,
  the second the \<open>for\<close> loop over the buckets; a negative result stops both.
\<close>

fun forEach_chain :: "'o virHashIterator \<Rightarrow> virHashEntry list \<Rightarrow> 'o \<Rightarrow> int \<times> 'o" where
  "forEach_chain iter [] opaque = (0, opaque)"
| "forEach_chain iter (e # es) opaque =
     (case iter (payload e) (name e) opaque of
        (ret, opaque') \<Rightarrow>
          if ret < 0 then (ret, opaque') else forEach_chain iter es opaque')"

fun forEach_buckets :: "'o virHashIterator \<Rightarrow> virHashEntry list list \<Rightarrow> 'o \<Rightarrow> int \<times> 'o" where
  "forEach_buckets iter [] opaque = (0, opaque)"
| "forEach_buckets iter (c # cs) opaque =
     (case forEach_chain iter c opaque of
        (ret, opaque') \<Rightarrow>
          if ret < 0 then (ret, opaque') else forEach_buckets iter cs opaque')"

definition virHashForEach :: "virHashTablePtr \<Rightarrow> 'o virHashIterator option \<Rightarrow> 'o \<Rightarrow> world
    \<Rightarrow> int \<times> 'o" where
  "virHashForEach p iter opaque w =
     (case iter of
        None \<Rightarrow> (-1, opaque)
      | Some f \<Rightarrow>
          if p = NULL then (-1, opaque)
          else
            let t = heap w p
            in forEach_buckets f (map (\<lambda>i. table t ! i) [0..<unat (size_tab t)]) opaque)"

subsection \<open>Snapshots\<close>

text \<open>
  \<open>struct virHashGetItemsIteratorData\<close> is the pair of the array \<open>items\<close> and the
  index \<open>i\<close>.
\<close>

definition virHashGetItemsIterator ::
    "(virHashKeyValuePair list \<times> size_t) virHashIterator" where
  "virHashGetItemsIterator pl k data =
     (case data of
        (items, i) \<Rightarrow> (0, (items[unat i := \<lparr>key = Some k, value_kv = pl\<rparr>], i + 1)))"

text \<open>
  \<open>strcmp\<close> and \<open>qsort\<close> belong to the C library.  \<open>strcmp\<close> compares byte by byte, as
  unsigned characters, and only the sign of its result is specified; \<open>qsort\<close> leaves the
  array in ascending order of the comparator.  The order among elements that compare
  equal is not specified; here \<open>qsort\<close> sorts by insertion, and for slots with distinct
  keys every sorted arrangement is the same (lemma \<open>qsort_unique\<close>).
\<close>

fun strcmp :: "string \<Rightarrow> string \<Rightarrow> int" where
  "strcmp [] [] = 0"
| "strcmp [] (b # bs) = -1"
| "strcmp (a # as) [] = 1"
| "strcmp (a # as) (b # bs) =
     (if a = b then strcmp as bs
      else if (of_char a :: nat) < of_char b then -1 else 1)"

fun qsort_insert :: "('a \<Rightarrow> 'a \<Rightarrow> int) \<Rightarrow> 'a \<Rightarrow> 'a list \<Rightarrow> 'a list" where
  "qsort_insert cmp x [] = [x]"
| "qsort_insert cmp x (y # ys) =
     (if cmp x y \<le> 0 then x # y # ys else y # qsort_insert cmp x ys)"

definition qsort :: "('a \<Rightarrow> 'a \<Rightarrow> int) \<Rightarrow> 'a list \<Rightarrow> 'a list" where
  "qsort cmp xs = foldr (qsort_insert cmp) xs []"

text \<open>
  \<open>strcmp\<close> on a null key is undefined in C, as \<open>the None\<close> is here; the slots that
  \<open>qsort\<close> compares are the first \<open>nitems\<close>, which the iterator has filled when
  \<open>nbElems\<close> counts the entries.
\<close>

definition virHashGetItemsKeySorter :: "virHashKeyValuePair \<Rightarrow> virHashKeyValuePair \<Rightarrow> int" where
  "virHashGetItemsKeySorter a b = strcmp (the (key a)) (the (key b))"

text \<open>
  \<open>virHashGetItems\<close> returns the array and the value stored through \<open>nitems\<close>.  The
  array is \<open>None\<close> (a null pointer) when \<open>g_new0\<close> is asked for zero slots: for a null
  table \<open>virHashSize\<close> is \<open>-1\<close> and \<open>*nitems + 1\<close> wraps to 0.  The iterator writes
  slot \<open>i\<close> of the array; a write past its end, undefined in C, is dropped here and
  does not happen when \<open>nbElems\<close> counts the entries.
\<close>

definition virHashGetItems :: "virHashTablePtr \<Rightarrow> bool \<Rightarrow> world
    \<Rightarrow> virHashKeyValuePair list option \<times> size_t" where
  "virHashGetItems p sortKeys w =
     (let nitems = virHashSize p w;
          n = unat (nitems + 1)
      in if n = 0 then (None, nitems)
         else
           let items0 = replicate n \<lparr>key = None, value_kv = NULL\<rparr>;
               items1 = fst (snd (virHashForEach p (Some virHashGetItemsIterator)
                                    (items0, 0) w));
               items2 = (if sortKeys
                         then qsort virHashGetItemsKeySorter (take (unat nitems) items1)
                                @ drop (unat nitems) items1
                         else items1)
           in (Some items2, nitems))"

text \<open>The loop \<open>for (i = 0; items[i].key; i++)\<close> of the two snapshot iterations.\<close>

fun forEach_items :: "'o virHashIterator \<Rightarrow> virHashKeyValuePair list \<Rightarrow> 'o \<Rightarrow> int \<times> 'o" where
  "forEach_items iter [] opaque = (0, opaque)"
| "forEach_items iter (it # its) opaque =
     (case key it of
        None \<Rightarrow> (0, opaque)
      | Some k \<Rightarrow>
          (case iter (value_kv it) k opaque of
             (ret, opaque') \<Rightarrow>
               if ret < 0 then (-1, opaque') else forEach_items iter its opaque'))"

definition virHashForEachSafe :: "virHashTablePtr \<Rightarrow> 'o virHashIterator \<Rightarrow> 'o \<Rightarrow> world
    \<Rightarrow> int \<times> 'o" where
  "virHashForEachSafe p iter opaque w =
     (case fst (virHashGetItems p False w) of
        None \<Rightarrow> (-1, opaque)
      | Some items \<Rightarrow> forEach_items iter items opaque)"

definition virHashForEachSorted :: "virHashTablePtr \<Rightarrow> 'o virHashIterator \<Rightarrow> 'o \<Rightarrow> world
    \<Rightarrow> int \<times> 'o" where
  "virHashForEachSorted p iter opaque w =
     (case fst (virHashGetItems p True w) of
        None \<Rightarrow> (-1, opaque)
      | Some items \<Rightarrow> forEach_items iter items opaque)"

subsection \<open>Removal by predicate\<close>

text \<open>
  The \<open>while (*nextptr)\<close> loop over one chain: the entries kept, the entries removed
  (in the order of their removal) and the opaque data.
\<close>

fun removeSet_chain :: "'o virHashSearcher \<Rightarrow> virHashEntry list \<Rightarrow> 'o
    \<Rightarrow> (virHashEntry list \<times> virHashEntry list) \<times> 'o" where
  "removeSet_chain iter [] opaque = (([], []), opaque)"
| "removeSet_chain iter (e # es) opaque =
     (case iter (payload e) (name e) opaque of
        (r, opaque1) \<Rightarrow>
          (case removeSet_chain iter es opaque1 of
             ((kept, removed), opaque2) \<Rightarrow>
               if r = 0 then ((e # kept, removed), opaque2)
               else ((kept, e # removed), opaque2)))"

fun removeSet_buckets :: "'o virHashSearcher \<Rightarrow> virHashTablePtr \<Rightarrow> nat list
    \<Rightarrow> size_t \<times> 'o \<times> world \<Rightarrow> size_t \<times> 'o \<times> world" where
  "removeSet_buckets iter p [] st = st"
| "removeSet_buckets iter p (i # js) (cnt, opaque, w) =
     (let t = heap w p
      in case removeSet_chain iter (table t ! i) opaque of
           ((kept, removed), opaque') \<Rightarrow>
             let t1 = t\<lparr>table := (table t)[i := kept],
                        nbElems := nbElems t - of_nat (length removed)\<rparr>;
                 w1 = w\<lparr>heap := (heap w)(p := t1),
                        freed := freed w @
                          (if dataFree t \<noteq> NULL
                           then map (\<lambda>e. (dataFree t, payload e)) removed else [])\<rparr>
             in removeSet_buckets iter p js
                  (cnt + of_nat (length removed), opaque', w1))"

definition virHashRemoveSet :: "virHashTablePtr \<Rightarrow> 'o virHashSearcher option \<Rightarrow> 'o \<Rightarrow> world
    \<Rightarrow> size_t \<times> 'o \<times> world" where
  "virHashRemoveSet p iter opaque w =
     (case iter of
        None \<Rightarrow> (-1, opaque, w)
      | Some f \<Rightarrow>
          if p = NULL then (-1, opaque, w)
          else removeSet_buckets f p [0..<unat (size_tab (heap w p))] (0, opaque, w))"

definition virHashRemoveAllIter :: "unit virHashSearcher" where
  "virHashRemoveAllIter pl n opaque = (1, opaque)"

definition virHashRemoveAll :: "virHashTablePtr \<Rightarrow> world \<Rightarrow> world" where
  "virHashRemoveAll p w = snd (snd (virHashRemoveSet p (Some virHashRemoveAllIter) () w))"

subsection \<open>Search and comparison\<close>

fun search_chain :: "'o virHashSearcher \<Rightarrow> virHashEntry list \<Rightarrow> 'o
    \<Rightarrow> virHashEntry option \<times> 'o" where
  "search_chain iter [] opaque = (None, opaque)"
| "search_chain iter (e # es) opaque =
     (case iter (payload e) (name e) opaque of
        (r, opaque') \<Rightarrow>
          if r \<noteq> 0 then (Some e, opaque') else search_chain iter es opaque')"

fun search_buckets :: "'o virHashSearcher \<Rightarrow> virHashEntry list list \<Rightarrow> 'o
    \<Rightarrow> virHashEntry option \<times> 'o" where
  "search_buckets iter [] opaque = (None, opaque)"
| "search_buckets iter (c # cs) opaque =
     (case search_chain iter c opaque of
        (Some e, opaque') \<Rightarrow> (Some e, opaque')
      | (None, opaque') \<Rightarrow> search_buckets iter cs opaque')"

text \<open>
  \<open>virHashSearch\<close> returns the payload found (or \<open>NULL\<close>), the copy of the name stored
  through \<open>name\<close> when the caller asks for it (\<open>want_name\<close>), and the opaque data.
\<close>

definition virHashSearch :: "virHashTablePtr \<Rightarrow> 'o virHashSearcher option \<Rightarrow> 'o \<Rightarrow> bool
    \<Rightarrow> world \<Rightarrow> ptr \<times> string option \<times> 'o" where
  "virHashSearch p iter opaque want_name w =
     (case iter of
        None \<Rightarrow> (NULL, None, opaque)
      | Some f \<Rightarrow>
          if p = NULL then (NULL, None, opaque)
          else
            let t = heap w p
            in (case search_buckets f (map (\<lambda>i. table t ! i) [0..<unat (size_tab t)])
                       opaque of
                  (Some e, opaque') \<Rightarrow>
                    (payload e, if want_name then Some (name e) else None, opaque')
                | (None, opaque') \<Rightarrow> (NULL, None, opaque')))"

definition virHashEqualSearcher :: "virHashCodeGen \<Rightarrow> world
    \<Rightarrow> virHashEqualData virHashSearcher" where
  "virHashEqualSearcher H w pl n vhed =
     (let v = virHashLookup H (table2 vhed) (Some n) w
      in if v = NULL \<or> compar vhed v pl \<noteq> 0
         then (1, vhed\<lparr>equal_vhed := False\<rparr>)
         else (0, vhed))"

definition virHashEqual :: "virHashCodeGen \<Rightarrow> virHashTablePtr \<Rightarrow> virHashTablePtr
    \<Rightarrow> virHashValueComparator \<Rightarrow> world \<Rightarrow> bool" where
  "virHashEqual H table1 tbl2 cmp w =
     (let data = \<lparr>equal_vhed = True, table2 = tbl2, compar = cmp\<rparr>
      in if table1 = tbl2 then True
         else if table1 = NULL \<or> tbl2 = NULL \<or> virHashSize table1 w \<noteq> virHashSize tbl2 w
         then False
         else equal_vhed (snd (snd (virHashSearch table1 (Some (virHashEqualSearcher H w))
                                       data False w))))"

subsection \<open>Well-formed tables\<close>

text \<open>
  The invariants of the data structure: the bucket array has \<open>size\<close> slots, at least
  one; every entry sits in the bucket its name hashes to; names are unique in the
  table; \<open>nbElems\<close> counts the entries.
\<close>

definition bucket_inv :: "virHashCodeGen \<Rightarrow> virHashTable \<Rightarrow> bool" where
  "bucket_inv H t \<longleftrightarrow>
     (\<forall>i < length (table t). \<forall>e \<in> set (table t ! i).
        unat (virHashComputeKey H t (name e)) = i)"

definition wf_table :: "virHashCodeGen \<Rightarrow> virHashTable \<Rightarrow> bool" where
  "wf_table H t \<longleftrightarrow>
     length (table t) = unat (size_tab t) \<and> size_tab t \<noteq> 0 \<and>
     (\<forall>i < length (table t). \<forall>e \<in> set (table t ! i).
        unat (virHashComputeKey H t (name e)) = i) \<and>
     distinct (map name (concat (table t))) \<and>
     unat (nbElems t) = length (concat (table t))"

text \<open>
  What \<open>virHashGrow\<close> makes of a table whose bucket array has \<open>size\<close> slots, and what
  insertion makes of it before any growth.
\<close>

definition grow_table :: "virHashCodeGen \<Rightarrow> virHashTable \<Rightarrow> size_t \<Rightarrow> virHashTable" where
  "grow_table H t sz =
     rechain H (concat (table t)) (t\<lparr>table := replicate (unat sz) [], size_tab := sz\<rparr>)"

definition append_entry :: "virHashCodeGen \<Rightarrow> virHashTable \<Rightarrow> string \<Rightarrow> ptr \<Rightarrow> virHashTable" where
  "append_entry H t n ud =
     (let k = unat (virHashComputeKey H t n)
      in t\<lparr>table := (table t)[k := table t ! k @ [\<lparr>name = n, payload = ud\<rparr>]],
           nbElems := nbElems t + 1\<rparr>)"

subsection \<open>Sequences of operations\<close>

datatype hash_op =
    Add string ptr
  | Update string ptr
  | Remove string
  | Steal string
  | RemoveSet "ptr \<Rightarrow> string \<Rightarrow> int"

fun apply_op :: "virHashCodeGen \<Rightarrow> virHashTablePtr \<Rightarrow> hash_op \<Rightarrow> world \<Rightarrow> world" where
  "apply_op H p (Add n v) w = snd (virHashAddEntry H p (Some n) v w)"
| "apply_op H p (Update n v) w = snd (virHashUpdateEntry H p (Some n) v w)"
| "apply_op H p (Remove n) w = snd (virHashRemoveEntry H p (Some n) w)"
| "apply_op H p (Steal n) w = snd (virHashSteal H p (Some n) w)"
| "apply_op H p (RemoveSet f) w =
     snd (snd (virHashRemoveSet p (Some (\<lambda>pl n opaque. (f pl n, opaque))) () w))"

definition run_ops :: "virHashCodeGen \<Rightarrow> virHashTablePtr \<Rightarrow> hash_op list \<Rightarrow> world \<Rightarrow> world" where
  "run_ops H p ops w = fold (apply_op H p) ops w"

subsection \<open>Sample inputs\<close>

text \<open>
  A hash function that sends a name to its length plus the seed, a state in which no
  table has been made yet, and the table at address 2 holding \<open>''a''\<close>.
\<close>

definition sample_hash :: virHashCodeGen where
  "sample_hash n len sd = ucast len + sd"

definition empty_world :: world where
  "empty_world =
     \<lparr>heap = (\<lambda>a. \<lparr>table = [], seed = 0, size_tab = 0, nbElems = 0, dataFree = NULL\<rparr>),
      freed = [], errors = []\<rparr>"

definition world_a :: world where
  "world_a = snd (virHashAddEntry sample_hash 2 (Some ''a'') 5
                    (snd (virHashNew 2 0 7 empty_world)))"

text \<open>The same table with \<open>''a''\<close> stored with the null payload.\<close>

definition world_null :: world where
  "world_null = snd (virHashAddEntry sample_hash 2 (Some ''a'') NULL
                       (snd (virHashNew 2 0 7 empty_world)))"

definition scenario_ops :: "hash_op list" where
  "scenario_ops = [Add ''x'' 11, Add ''y'' 12, Update ''x'' 13, Remove ''y'']"

definition ops_8 :: "hash_op list" where
  "ops_8 = [Add ''a'' 11, Add ''b'' 12, Add ''c'' 13, Add ''d'' 14,
            Add ''e'' 15, Add ''f'' 16, Add ''g'' 17, Add ''h'' 18]"

definition world_8 :: world where
  "world_8 = run_ops sample_hash 2 ops_8 (snd (virHashNew 2 0 7 empty_world))"

definition world_9 :: world where
  "world_9 = snd (virHashAddEntry sample_hash 2 (Some ''i'') 19 world_8)"

text \<open>
  What \<open>virHashEqualSearcher\<close> accepts: the second table's lookup of the entry's name is
  not null and compares equal to the entry's payload.
\<close>

definition equal_entry :: "virHashCodeGen \<Rightarrow> world \<Rightarrow> virHashTablePtr
    \<Rightarrow> virHashValueComparator \<Rightarrow> virHashEntry \<Rightarrow> bool" where
  "equal_entry H w tbl2 cmp e \<longleftrightarrow>
     virHashLookup H tbl2 (Some (name e)) w \<noteq> NULL \<and>
     cmp (virHashLookup H tbl2 (Some (name e)) w) (payload e) = 0"

definition cmp_always_equal :: virHashValueComparator where
  "cmp_always_equal v1 v2 = 0"

text \<open>Two tables, at addresses 2 and 3, each storing \<open>''a''\<close> with the null payload.\<close>

definition world_two_null :: world where
  "world_two_null = snd (virHashAddEntry sample_hash 3 (Some ''a'') NULL
                           (snd (virHashNew 3 0 7 world_null)))"

definition cmp_ptr :: virHashValueComparator where
  "cmp_ptr v1 v2 = (if v1 = v2 then 0 else 1)"

definition world_two :: world where
  "world_two = snd (virHashAddEntry sample_hash 3 (Some ''a'') 5
                      (snd (virHashNew 3 0 7 world_a)))"

text \<open>The snapshot slot of an entry, the empty slot, and the name held by a slot.\<close>

definition item_of :: "virHashEntry \<Rightarrow> virHashKeyValuePair" where
  "item_of e = \<lparr>key = Some (name e), value_kv = payload e\<rparr>"

definition sentinel :: virHashKeyValuePair where
  "sentinel = \<lparr>key = None, value_kv = NULL\<rparr>"

definition item_name :: "virHashKeyValuePair \<Rightarrow> string" where
  "item_name it = the (key it)"

text \<open>A callback that appends the name it is given to the opaque list.\<close>

definition record_name :: "string list virHashIterator" where
  "record_name pl k acc = (0, acc @ [k])"

definition ops_bac :: "hash_op list" where
  "ops_bac = [Add ''b'' 12, Add ''a'' 11, Add ''c'' 13]"

definition world_bac :: world where
  "world_bac = run_ops sample_hash 2 ops_bac (snd (virHashNew 2 0 7 empty_world))"

section \<open>Properties\<close>

subsection \<open>Arithmetic on \<open>size_t\<close>\<close>

lemma unat_pred_size_t: "x \<noteq> 0 \<Longrightarrow> unat (x - 1) = unat x - 1" for x :: size_t
  by (simp add: unat_minus_one)

lemma size_t_succ: "x \<noteq> - 1 \<Longrightarrow> unat (x + 1) = Suc (unat x)" for x :: size_t
proof -
  assume "x \<noteq> - 1"
  then have "x + 1 \<noteq> 0"
    by (simp add: add_eq_0_iff2)
  then show ?thesis
    using unatSuc [of x] by (simp add: add.commute)
qed

text \<open>Filling the snapshot.\<close>

lemma size_t_add_of_nat:
  "unat i + k < 2 ^ 64 \<Longrightarrow> unat (i + of_nat k) = unat i + k" for i :: size_t
  by (simp add: unat_word_ariths unat_of_nat)

lemma size_t_sub_of_nat:
  fixes x :: size_t
  assumes "k \<le> unat x"
  shows "unat (x - of_nat k) = unat x - k"
proof -
  have "unat x < 2 ^ 64"
    using unsigned_less [of x] by simp
  with assms have u: "unat (of_nat k :: size_t) = k"
    by (simp add: unat_of_nat)
  then have "(of_nat k :: size_t) \<le> x"
    using assms by (simp add: word_le_nat_alt)
  then show ?thesis
    using u by (simp add: unat_sub)
qed

lemma size_t_of_nat_less:
  "n < 2 ^ 64 \<Longrightarrow> (8 :: size_t) < of_nat n \<longleftrightarrow> 8 < n"
  by (simp add: word_less_nat_alt unat_of_nat)

subsection \<open>Chains and bucket arrays\<close>

lemma computeKey_less:
  "size_tab t \<noteq> 0 \<Longrightarrow> unat (virHashComputeKey H t n) < unat (size_tab t)"
  by (simp add: virHashComputeKey_def Let_def unat_mod unat_gt_0)

lemma computeKey_table_upd [simp]:
  "virHashComputeKey H (t\<lparr>table := x\<rparr>) n = virHashComputeKey H t n"
  by (simp add: virHashComputeKey_def)

lemma computeKey_dataFree_upd [simp]:
  "virHashComputeKey H (t\<lparr>dataFree := x\<rparr>) n = virHashComputeKey H t n"
  by (simp add: virHashComputeKey_def)

lemma chain_index_None: "chain_index n c = None \<longleftrightarrow> n \<notin> name ` set c"
  by (induction c) auto

lemma chain_index_Some:
  "chain_index n c = Some i \<Longrightarrow> i < length c \<and> name (c ! i) = n \<and> (\<forall>j<i. name (c ! j) \<noteq> n)"
proof (induction c arbitrary: i)
  case Nil
  then show ?case by simp
next
  case (Cons e es)
  show ?case
  proof (cases "name e = n")
    case True
    with Cons.prems show ?thesis by simp
  next
    case False
    with Cons.prems obtain j where j: "chain_index n es = Some j" "i = Suc j"
      by auto
    from Cons.IH [OF j(1)] False j(2) show ?thesis
      by (auto simp: less_Suc_eq_0_disj)
  qed
qed

lemma chain_index_distinct:
  "distinct (map name c) \<Longrightarrow> e \<in> set c \<Longrightarrow> \<exists>i. chain_index (name e) c = Some i \<and> c ! i = e"
  by (induction c) (auto simp: image_iff)

lemma chain_index_update:
  "chain_index n c = Some i \<Longrightarrow> chain_index n (c[i := (c ! i)\<lparr>payload := ud\<rparr>]) = Some i"
proof (induction c arbitrary: i)
  case Nil
  then show ?case by simp
next
  case (Cons e es)
  then show ?case by (cases "name e = n") auto
qed

lemma mset_concat_update:
  "k < length xs \<Longrightarrow> mset (concat (xs[k := c])) + mset (xs ! k) = mset (concat xs) + mset c"
proof (induction xs arbitrary: k)
  case Nil
  then show ?case by simp
next
  case (Cons x xs)
  then show ?case by (cases k) (auto simp: add.assoc)
qed

lemma length_concat_update:
  "k < length xs \<Longrightarrow> length (concat (xs[k := c])) + length (xs ! k) = length (concat xs) + length c"
  using mset_concat_update [of k xs c, THEN arg_cong, of size] by simp

lemma nth_subset_concat: "k < length xs \<Longrightarrow> set (xs ! k) \<subseteq> set (concat xs)"
  using nth_mem by fastforce

lemma distinct_names_nth:
  "distinct (map name (concat xs)) \<Longrightarrow> k < length xs \<Longrightarrow> distinct (map name (xs ! k))"
proof (induction xs arbitrary: k)
  case Nil
  then show ?case by simp
next
  case (Cons x xs)
  then show ?case by (cases k) auto
qed

lemma concat_single_bucket: "k < n \<Longrightarrow> concat ((replicate n [])[k := c]) = c"
  by (simp add: upd_conv_take_nth_drop)

text \<open>Unlinking one entry.\<close>

lemma mset_unlink: "i < length c \<Longrightarrow> add_mset (c ! i) (mset (take i c @ drop (Suc i) c)) = mset c"
  by (metis Cons_nth_drop_Suc append_take_drop_id mset.simps(2) mset_append union_mset_add_mset_right)

lemma unlink_mset:
  assumes "k < length xs" "i < length (xs ! k)"
  shows "add_mset (xs ! k ! i) (mset (concat (xs[k := take i (xs ! k) @ drop (Suc i) (xs ! k)])))
           = mset (concat xs)"
proof -
  let ?c = "take i (xs ! k) @ drop (Suc i) (xs ! k)"
  have "mset (concat (xs[k := ?c])) + mset (xs ! k) = mset (concat xs) + mset ?c"
    using assms(1) by (rule mset_concat_update)
  moreover have "mset (xs ! k) = add_mset (xs ! k ! i) (mset ?c)"
    using mset_unlink [OF assms(2)] by simp
  ultimately show ?thesis by simp
qed

text \<open>Replacing the payload of one entry.\<close>

lemma names_payload_update:
  assumes "i < length (xs ! k)"
  shows "map (map name) (xs[k := (xs ! k)[i := (xs ! k ! i)\<lparr>payload := ud\<rparr>]]) = map (map name) xs"
proof -
  have "map name ((xs ! k)[i := (xs ! k ! i)\<lparr>payload := ud\<rparr>]) = map name (xs ! k)"
    using assms by (simp add: map_update list_update_same_conv)
  then show ?thesis
    by (cases "k < length xs") (simp_all add: map_update list_update_same_conv list_update_beyond)
qed

subsection \<open>Reading the state\<close>

lemma errors_upd [simp]:
  "virHashGetEntry H p nm (w\<lparr>errors := x\<rparr>) = virHashGetEntry H p nm w"
  "virHashLookup H p nm (w\<lparr>errors := x\<rparr>) = virHashLookup H p nm w"
  "virHashHasEntry H p nm (w\<lparr>errors := x\<rparr>) = virHashHasEntry H p nm w"
  "virHashSize p (w\<lparr>errors := x\<rparr>) = virHashSize p w"
  by (simp_all add: virHashGetEntry_def virHashLookup_def virHashHasEntry_def virHashSize_def
      split: option.splits)

lemma freed_upd [simp]:
  "virHashGetEntry H p nm (w\<lparr>freed := y\<rparr>) = virHashGetEntry H p nm w"
  "virHashLookup H p nm (w\<lparr>freed := y\<rparr>) = virHashLookup H p nm w"
  "virHashHasEntry H p nm (w\<lparr>freed := y\<rparr>) = virHashHasEntry H p nm w"
  "virHashSize p (w\<lparr>freed := y\<rparr>) = virHashSize p w"
  by (simp_all add: virHashGetEntry_def virHashLookup_def virHashHasEntry_def virHashSize_def
      split: option.splits)

lemma hasEntry_chain:
  "p \<noteq> NULL \<Longrightarrow> virHashHasEntry H p (Some n) w \<longleftrightarrow>
     chain_index n (table (heap w p) ! unat (virHashComputeKey H (heap w p) n)) \<noteq> None"
  by (simp add: virHashHasEntry_def virHashGetEntry_def Let_def)

lemma hasEntry_NULL [simp]: "\<not> virHashHasEntry H NULL nm w"
  by (simp add: virHashHasEntry_def virHashGetEntry_def split: option.splits)

lemma hasEntry_index:
  assumes "virHashHasEntry H p (Some n) w"
  shows "p \<noteq> NULL"
    and "\<exists>i. chain_index n (table (heap w p) ! unat (virHashComputeKey H (heap w p) n)) = Some i"
  using assms by (auto simp: virHashHasEntry_def virHashGetEntry_def Let_def split: if_splits)

lemma lookup_index:
  assumes "p \<noteq> NULL"
    and "chain_index n (table (heap w p) ! unat (virHashComputeKey H (heap w p) n)) = Some i"
  shows "virHashLookup H p (Some n) w
           = payload (table (heap w p) ! unat (virHashComputeKey H (heap w p) n) ! i)"
  using assms by (simp add: virHashLookup_def virHashGetEntry_def Let_def)

lemma lookup_absent: "\<not> virHashHasEntry H p nm w \<Longrightarrow> virHashLookup H p nm w = NULL"
  by (simp add: virHashHasEntry_def virHashLookup_def)

subsection \<open>Growing rechains every entry\<close>

lemma rechain_fields:
  "seed (rechain H es t) = seed t"
  "size_tab (rechain H es t) = size_tab t"
  "nbElems (rechain H es t) = nbElems t"
  "dataFree (rechain H es t) = dataFree t"
  "length (table (rechain H es t)) = length (table t)"
  by (induction es arbitrary: t) (simp_all add: Let_def)

lemma rechain_append: "rechain H (xs @ ys) t = rechain H ys (rechain H xs t)"
  by (induction xs arbitrary: t) (simp_all add: Let_def)

lemma fold_rechain: "fold (rechain H) xss t = rechain H (concat xss) t"
  by (induction xss arbitrary: t) (simp_all add: rechain_append)

lemma fold_nth_upt: "fold (\<lambda>i. f (xs ! i)) [0..<length xs] t = fold f xs t"
proof -
  have "fold f (map (\<lambda>i. xs ! i) [0..<length xs]) t = fold (\<lambda>i. f (xs ! i)) [0..<length xs] t"
    by (simp add: fold_map comp_def)
  then show ?thesis by (simp add: map_nth)
qed

lemma rechain_mset:
  "length (table t) = unat (size_tab t) \<Longrightarrow> size_tab t \<noteq> 0 \<Longrightarrow>
   mset (concat (table (rechain H es t))) = mset es + mset (concat (table t))"
proof (induction es arbitrary: t)
  case Nil
  then show ?case by simp
next
  case (Cons e es)
  let ?k = "unat (virHashComputeKey H t (name e))"
  let ?t = "t\<lparr>table := (table t)[?k := e # (table t ! ?k)]\<rparr>"
  have k: "?k < length (table t)"
    using Cons.prems computeKey_less [of t H "name e"] by simp
  have "mset (concat (table (rechain H es ?t))) = mset es + mset (concat (table ?t))"
    using Cons.prems by (intro Cons.IH) simp_all
  moreover have "mset (concat (table ?t)) + mset (table t ! ?k)
      = mset (concat (table t)) + mset (e # (table t ! ?k))"
    using mset_concat_update [OF k] by simp
  then have "mset (concat (table ?t)) = add_mset e (mset (concat (table t)))"
    by simp
  ultimately show ?case by (simp add: Let_def)
qed

lemma rechain_bucket_inv:
  "length (table t) = unat (size_tab t) \<Longrightarrow> size_tab t \<noteq> 0 \<Longrightarrow> bucket_inv H t \<Longrightarrow>
   bucket_inv H (rechain H es t)"
proof (induction es arbitrary: t)
  case Nil
  then show ?case by simp
next
  case (Cons e es)
  let ?k = "unat (virHashComputeKey H t (name e))"
  let ?t = "t\<lparr>table := (table t)[?k := e # (table t ! ?k)]\<rparr>"
  have k: "?k < length (table t)"
    using Cons.prems computeKey_less [of t H "name e"] by simp
  have "bucket_inv H ?t"
    using Cons.prems(3) k
    by (auto simp: bucket_inv_def nth_list_update)
  then have "bucket_inv H (rechain H es ?t)"
    using Cons.prems by (intro Cons.IH) simp_all
  then show ?case by (simp add: Let_def)
qed

lemma virHashGrow_success:
  assumes "p \<noteq> NULL" "8 \<le> sz" "sz \<le> 16384"
    and "length (table (heap w p)) = unat (size_tab (heap w p))"
  shows "virHashGrow H p sz w = (0, w\<lparr>heap := (heap w)(p := grow_table H (heap w p) sz)\<rparr>)"
proof -
  have "fold (\<lambda>i. rechain H (table (heap w p) ! i)) [0..<unat (size_tab (heap w p))] t1
      = rechain H (concat (table (heap w p))) t1" for t1
    using fold_nth_upt [of "rechain H" "table (heap w p)" t1] assms(4)
    by (simp add: fold_rechain)
  then show ?thesis
    using assms(1-3) by (simp add: virHashGrow_def Let_def grow_table_def not_less)
qed

lemma virHashGrow_rejected:
  "p = NULL \<or> sz < 8 \<or> 16384 < sz \<Longrightarrow> virHashGrow H p sz w = (-1, w)"
  by (auto simp: virHashGrow_def)

lemma grow_success_iff:
  "fst (virHashGrow H p sz w) = 0 \<longleftrightarrow> p \<noteq> NULL \<and> 8 \<le> sz \<and> sz \<le> 16384"
  by (auto simp: virHashGrow_def Let_def not_less)

lemma grow_table_fields:
  "seed (grow_table H t sz) = seed t"
  "size_tab (grow_table H t sz) = sz"
  "nbElems (grow_table H t sz) = nbElems t"
  "dataFree (grow_table H t sz) = dataFree t"
  "length (table (grow_table H t sz)) = unat sz"
  by (simp_all add: grow_table_def rechain_fields)

lemma grow_table_mset:
  "sz \<noteq> 0 \<Longrightarrow> mset (concat (table (grow_table H t sz))) = mset (concat (table t))"
  by (simp add: grow_table_def rechain_mset)

lemma grow_table_bucket_inv: "sz \<noteq> 0 \<Longrightarrow> bucket_inv H (grow_table H t sz)"
  unfolding grow_table_def
  by (rule rechain_bucket_inv) (simp_all add: bucket_inv_def)

subsection \<open>Well-formed tables\<close>

lemma wf_table_alt:
  "wf_table H t \<longleftrightarrow>
     length (table t) = unat (size_tab t) \<and> size_tab t \<noteq> 0 \<and> bucket_inv H t \<and>
     distinct (map name (concat (table t))) \<and>
     unat (nbElems t) = length (concat (table t))"
  by (simp add: wf_table_def bucket_inv_def)

lemma wf_key_less:
  "wf_table H t \<Longrightarrow> unat (virHashComputeKey H t n) < length (table t)"
  using computeKey_less [of t H n] by (simp add: wf_table_def)

lemma wf_chain_length:
  assumes "wf_table H t"
  shows "length (table t ! unat (virHashComputeKey H t n)) < 2 ^ 64"
proof -
  let ?k = "unat (virHashComputeKey H t n)"
  have k: "?k < length (table t)" using assms by (rule wf_key_less)
  have "length (concat ((table t)[?k := []])) + length (table t ! ?k) = length (concat (table t))"
    using length_concat_update [OF k, of "[]"] by simp
  then have "length (table t ! ?k) \<le> unat (nbElems t)"
    using assms by (simp add: wf_table_def)
  also have "\<dots> < 2 ^ 64"
    using unsigned_less [of "nbElems t"] by simp
  finally show ?thesis .
qed

lemma grow_table_wf:
  assumes "wf_table H t" "sz \<noteq> 0"
  shows "wf_table H (grow_table H t sz)"
proof -
  have m: "mset (concat (table (grow_table H t sz))) = mset (concat (table t))"
    using assms(2) by (rule grow_table_mset)
  then have "mset (map name (concat (table (grow_table H t sz))))
      = mset (map name (concat (table t)))"
    by (metis mset_map)
  then have "distinct (map name (concat (table (grow_table H t sz))))"
    using assms(1) by (metis mset_eq_imp_distinct_iff wf_table_def)
  moreover have "length (concat (table (grow_table H t sz))) = length (concat (table t))"
    using m by (rule mset_eq_length)
  ultimately show ?thesis
    using assms grow_table_bucket_inv [OF assms(2), of H t]
    by (simp add: wf_table_alt grow_table_fields)
qed

lemma getEntry_wf:
  assumes "wf_table H (heap w p)" "p \<noteq> NULL"
  shows "virHashGetEntry H p (Some n) w = Some e \<longleftrightarrow>
           e \<in> set (concat (table (heap w p))) \<and> name e = n"
proof -
  let ?t = "heap w p"
  let ?k = "unat (virHashComputeKey H ?t n)"
  have k: "?k < length (table ?t)" using assms(1) by (rule wf_key_less)
  show ?thesis
  proof
    assume "virHashGetEntry H p (Some n) w = Some e"
    then obtain i where i: "chain_index n (table ?t ! ?k) = Some i" "e = table ?t ! ?k ! i"
      using assms(2) by (auto simp: virHashGetEntry_def Let_def)
    from chain_index_Some [OF i(1)] i(2) have "e \<in> set (table ?t ! ?k)" "name e = n"
      by auto
    with nth_subset_concat [OF k] show "e \<in> set (concat (table ?t)) \<and> name e = n"
      by auto
  next
    assume a: "e \<in> set (concat (table ?t)) \<and> name e = n"
    then obtain ys where "ys \<in> set (table ?t)" "e \<in> set ys"
      by auto
    then obtain j where j: "j < length (table ?t)" "e \<in> set (table ?t ! j)"
      by (metis in_set_conv_nth)
    with assms(1) a have "?k = j"
      by (auto simp: wf_table_def)
    moreover have "distinct (map name (table ?t ! j))"
      using assms(1) j(1) by (simp add: wf_table_def distinct_names_nth)
    ultimately obtain i where "chain_index n (table ?t ! ?k) = Some i" "table ?t ! ?k ! i = e"
      using chain_index_distinct [of "table ?t ! j" e] j(2) a by auto
    then show "virHashGetEntry H p (Some n) w = Some e"
      using assms(2) by (simp add: virHashGetEntry_def Let_def)
  qed
qed

lemma hasEntry_wf:
  assumes "wf_table H (heap w p)" "p \<noteq> NULL"
  shows "virHashHasEntry H p (Some n) w \<longleftrightarrow> n \<in> name ` set (concat (table (heap w p)))"
  using getEntry_wf [OF assms, of n] by (auto simp: virHashHasEntry_def)

lemma card_keys_wf:
  assumes "wf_table H (heap w p)" "p \<noteq> NULL"
  shows "card {n. virHashHasEntry H p (Some n) w} = unat (virHashSize p w)"
proof -
  have "{n. virHashHasEntry H p (Some n) w} = set (map name (concat (table (heap w p))))"
    using hasEntry_wf [OF assms] by auto
  then have "card {n. virHashHasEntry H p (Some n) w} = length (map name (concat (table (heap w p))))"
    using assms(1) by (simp only: wf_table_def distinct_card)
  then show ?thesis using assms by (simp add: wf_table_def virHashSize_def)
qed

lemma virHashNew_heap:
  "heap (snd (virHashNew p rnd df w)) p =
     \<lparr>table = replicate 32 [], seed = rnd, size_tab = 32, nbElems = 0, dataFree = df\<rparr>"
  by (simp add: virHashNew_def)

lemma virHashNew_wf: "wf_table H (heap (snd (virHashNew p rnd df w)) p)"
  by (simp add: virHashNew_heap wf_table_def)

subsection \<open>Insertion and update\<close>

lemma append_entry_fields:
  "seed (append_entry H t n ud) = seed t"
  "size_tab (append_entry H t n ud) = size_tab t"
  "nbElems (append_entry H t n ud) = nbElems t + 1"
  "dataFree (append_entry H t n ud) = dataFree t"
  "length (table (append_entry H t n ud)) = length (table t)"
  by (simp_all add: append_entry_def Let_def)

lemma append_entry_eq:
  "t\<lparr>table := (table t)[unat (virHashComputeKey H t n) :=
        table t ! unat (virHashComputeKey H t n) @ [\<lparr>name = n, payload = ud\<rparr>]],
     nbElems := nbElems t + 1\<rparr> = append_entry H t n ud"
  by (simp add: append_entry_def Let_def)

lemma append_entry_mset:
  assumes "wf_table H t"
  shows "mset (concat (table (append_entry H t n ud)))
           = add_mset \<lparr>name = n, payload = ud\<rparr> (mset (concat (table t)))"
proof -
  let ?k = "unat (virHashComputeKey H t n)"
  have k: "?k < length (table t)" using assms by (rule wf_key_less)
  from mset_concat_update [OF k, of "table t ! ?k @ [\<lparr>name = n, payload = ud\<rparr>]"]
  show ?thesis by (simp add: append_entry_def Let_def)
qed

lemma append_entry_wf:
  assumes "wf_table H t" "n \<notin> name ` set (concat (table t))" "nbElems t \<noteq> - 1"
  shows "wf_table H (append_entry H t n ud)"
proof -
  let ?k = "unat (virHashComputeKey H t n)"
  let ?t = "append_entry H t n ud"
  have k: "?k < length (table t)" using assms(1) by (rule wf_key_less)
  have m: "mset (concat (table ?t)) = add_mset \<lparr>name = n, payload = ud\<rparr> (mset (concat (table t)))"
    using assms(1) by (rule append_entry_mset)
  have "mset (map name (concat (table ?t))) = add_mset n (mset (map name (concat (table t))))"
    using m by (metis mset_map image_mset_add_mset virHashEntry.select_convs(1))
  moreover have "distinct (n # map name (concat (table t)))"
    using assms(1,2) by (simp add: wf_table_def)
  ultimately have d: "distinct (map name (concat (table ?t)))"
    by (metis mset.simps(2) mset_eq_imp_distinct_iff)
  have l: "length (concat (table ?t)) = Suc (length (concat (table t)))"
    using m [THEN arg_cong, of size] by simp
  have "nbElems t + 1 \<noteq> 0"
    using assms(3) by (simp add: add_eq_0_iff2)
  then have "unat (nbElems t + 1) = Suc (unat (nbElems t))"
    using unatSuc [of "nbElems t"] by (simp add: add.commute)
  with l assms(1) have c: "unat (nbElems ?t) = length (concat (table ?t))"
    by (simp add: append_entry_fields wf_table_def)
  have b: "bucket_inv H ?t"
    using assms(1) k unfolding wf_table_alt
    by (auto simp: bucket_inv_def append_entry_def Let_def nth_list_update
          virHashComputeKey_def)
  show ?thesis
    using assms(1) b c d by (simp add: wf_table_alt append_entry_fields)
qed

lemma addOrUpdate_new:
  assumes "p \<noteq> NULL" and "\<not> virHashHasEntry H p (Some n) w"
  shows "virHashAddOrUpdateEntry H p (Some n) ud upd w =
           (let t = heap w p;
                len = (of_nat (length (table t ! unat (virHashComputeKey H t n))) :: size_t);
                w1 = w\<lparr>heap := (heap w)(p := append_entry H t n ud)\<rparr>
            in (0, if MAX_HASH_LEN < len
                   then snd (virHashGrow H p (MAX_HASH_LEN * size_tab t) w1) else w1))"
  using assms
  by (auto simp: hasEntry_chain virHashAddOrUpdateEntry_def Let_def append_entry_eq
      append_entry_fields)

lemma grow_after_append:
  assumes "p \<noteq> NULL" and "length (table t) = unat (size_tab t)"
  shows "heap (snd (virHashGrow H p sz (w\<lparr>heap := (heap w)(p := append_entry H t n ud)\<rparr>))) p
           = (if sz < 8 \<or> 16384 < sz then append_entry H t n ud
              else grow_table H (append_entry H t n ud) sz)"
proof (cases "sz < 8 \<or> 16384 < sz")
  case True
  then show ?thesis by (simp add: virHashGrow_rejected)
next
  case False
  then have "8 \<le> sz" "sz \<le> 16384" by (simp_all add: not_less)
  then show ?thesis
    using assms False
    by (subst virHashGrow_success) (simp_all add: append_entry_fields)
qed

lemma addOrUpdate_new_heap:
  assumes "p \<noteq> NULL" and "\<not> virHashHasEntry H p (Some n) w"
    and "length (table (heap w p)) = unat (size_tab (heap w p))"
  shows "heap (snd (virHashAddOrUpdateEntry H p (Some n) ud upd w)) p =
           (let t = heap w p;
                len = (of_nat (length (table t ! unat (virHashComputeKey H t n))) :: size_t);
                sz = MAX_HASH_LEN * size_tab t
            in if MAX_HASH_LEN < len \<and> 8 \<le> sz \<and> sz \<le> 16384
               then grow_table H (append_entry H t n ud) sz
               else append_entry H t n ud)"
  using assms
  by (auto simp: addOrUpdate_new Let_def grow_after_append not_less not_le)

lemma update_present:
  assumes "p \<noteq> NULL"
    and "chain_index n (table (heap w p) ! unat (virHashComputeKey H (heap w p) n)) = Some i"
  shows "virHashAddOrUpdateEntry H p (Some n) ud True w =
           (let t = heap w p;
                k = unat (virHashComputeKey H t n);
                chain = table t ! k
            in (0, w\<lparr>freed := freed w @
                       (if dataFree t = NULL then [] else [(dataFree t, payload (chain ! i))]),
                     heap := (heap w)
                       (p := t\<lparr>table := (table t)[k := chain[i := (chain ! i)\<lparr>payload := ud\<rparr>]]\<rparr>)\<rparr>))"
  using assms by (simp add: virHashAddOrUpdateEntry_def Let_def)

lemma payload_update_wf:
  assumes "wf_table H t" "k < length (table t)" "i < length (table t ! k)"
  shows "wf_table H (t\<lparr>table := (table t)[k := (table t ! k)[i := (table t ! k ! i)\<lparr>payload := ud\<rparr>]]\<rparr>)"
proof -
  let ?tab = "(table t)[k := (table t ! k)[i := (table t ! k ! i)\<lparr>payload := ud\<rparr>]]"
  have n: "map (map name) ?tab = map (map name) (table t)"
    using assms(3) by (rule names_payload_update)
  have c: "map name (concat ?tab) = map name (concat (table t))"
    using n by (simp add: map_concat)
  have l: "length (concat ?tab) = length (concat (table t))"
    using c [THEN arg_cong, of length] by simp
  have b: "\<forall>j < length ?tab. \<forall>e \<in> set (?tab ! j).
        unat (virHashComputeKey H t (name e)) = j"
  proof (intro allI impI ballI)
    fix j e
    assume j: "j < length ?tab" and e: "e \<in> set (?tab ! j)"
    have "map name (?tab ! j) = map name (table t ! j)"
      using n j by (metis length_list_update nth_map)
    then have "name e \<in> name ` set (table t ! j)"
      using e by (metis image_eqI list.set_map)
    then show "unat (virHashComputeKey H t (name e)) = j"
      using assms(1) j by (auto simp: wf_table_def)
  qed
  show ?thesis
    using assms(1) b c l by (simp add: wf_table_def)
qed

lemma addOrUpdate_wf:
  assumes "wf_table H (heap w p)" and "nbElems (heap w p) \<noteq> - 1"
  shows "wf_table H (heap (snd (virHashAddOrUpdateEntry H p nm ud upd w)) p)"
proof (cases "p = NULL \<or> nm = None")
  case True
  then show ?thesis
    using assms(1) by (auto simp: virHashAddOrUpdateEntry_def split: option.splits)
next
  case False
  then obtain n where p: "p \<noteq> NULL" and nm: "nm = Some n" by auto
  let ?t = "heap w p"
  let ?k = "unat (virHashComputeKey H ?t n)"
  have k: "?k < length (table ?t)" using assms(1) by (rule wf_key_less)
  show ?thesis
  proof (cases "virHashHasEntry H p (Some n) w")
    case True
    from hasEntry_index(2) [OF True] obtain i where i: "chain_index n (table ?t ! ?k) = Some i"
      by auto
    from chain_index_Some [OF i] have il: "i < length (table ?t ! ?k)" by simp
    show ?thesis
      using p nm i assms(1) payload_update_wf [OF assms(1) k il]
      by (simp add: virHashAddOrUpdateEntry_def Let_def)
  next
    case False
    have a: "wf_table H (append_entry H ?t n ud)"
      using assms False p by (intro append_entry_wf) (simp_all add: hasEntry_wf)
    have l: "length (table ?t) = unat (size_tab ?t)"
      using assms(1) by (simp add: wf_table_def)
    have "wf_table H (grow_table H (append_entry H ?t n ud) sz)" if "8 \<le> sz" for sz
      using a that by (intro grow_table_wf) auto
    then show ?thesis
      using a by (simp add: nm addOrUpdate_new_heap [OF p False l] Let_def)
  qed
qed

lemma addOrUpdate_entries_le:
  assumes "wf_table H (heap w p)"
  shows "length (concat (table (heap (snd (virHashAddOrUpdateEntry H p nm ud upd w)) p)))
           \<le> Suc (length (concat (table (heap w p))))"
proof (cases "p = NULL \<or> nm = None")
  case True
  then show ?thesis
    by (auto simp: virHashAddOrUpdateEntry_def split: option.splits)
next
  case False
  then obtain n where p: "p \<noteq> NULL" and nm: "nm = Some n" by auto
  let ?t = "heap w p"
  let ?k = "unat (virHashComputeKey H ?t n)"
  show ?thesis
  proof (cases "virHashHasEntry H p (Some n) w")
    case True
    from hasEntry_index(2) [OF True] obtain i where i: "chain_index n (table ?t ! ?k) = Some i"
      by auto
    from chain_index_Some [OF i] have il: "i < length (table ?t ! ?k)" by simp
    have "map name (concat ((table ?t)[?k := (table ?t ! ?k)[i := (table ?t ! ?k ! i)\<lparr>payload := ud\<rparr>]]))
        = map name (concat (table ?t))"
      using names_payload_update [OF il] by (simp add: map_concat)
    from this [THEN arg_cong, of length] show ?thesis
      using p nm i by (simp add: virHashAddOrUpdateEntry_def Let_def)
  next
    case False
    have l: "length (table ?t) = unat (size_tab ?t)"
      using assms(1) by (simp add: wf_table_def)
    have a: "length (concat (table (append_entry H ?t n ud))) = Suc (length (concat (table ?t)))"
      using append_entry_mset [OF assms, of n ud, THEN arg_cong, of size] by simp
    have "length (concat (table (grow_table H (append_entry H ?t n ud) sz)))
        = Suc (length (concat (table ?t)))" if "8 \<le> sz" for sz
    proof -
      have "sz \<noteq> 0" using that by auto
      from grow_table_mset [OF this, of H "append_entry H ?t n ud", THEN arg_cong, of size]
      show ?thesis using a by simp
    qed
    then show ?thesis
      using a by (simp add: nm addOrUpdate_new_heap [OF p False l] Let_def)
  qed
qed

lemma add_new_size:
  assumes "wf_table H (heap w p)" and "p \<noteq> NULL" and "\<not> virHashHasEntry H p (Some n) w"
  shows "virHashSize p (snd (virHashAddOrUpdateEntry H p (Some n) ud upd w)) = virHashSize p w + 1"
proof -
  have l: "length (table (heap w p)) = unat (size_tab (heap w p))"
    using assms(1) by (simp add: wf_table_def)
  show ?thesis
    using assms(2)
    by (simp add: virHashSize_def addOrUpdate_new_heap [OF assms(2,3) l] Let_def
        grow_table_fields append_entry_fields)
qed

lemma update_present_size:
  assumes "virHashHasEntry H p (Some n) w"
  shows "virHashSize p (snd (virHashAddOrUpdateEntry H p (Some n) ud True w)) = virHashSize p w"
proof -
  from hasEntry_index [OF assms] obtain i where p: "p \<noteq> NULL"
    and i: "chain_index n (table (heap w p) ! unat (virHashComputeKey H (heap w p) n)) = Some i"
    by auto
  show ?thesis
    using p by (simp add: update_present [OF p i] Let_def virHashSize_def)
qed

subsection \<open>Removal\<close>

lemma unlink_wf:
  assumes "wf_table H t" "k < length (table t)" "i < length (table t ! k)"
  shows "wf_table H (t\<lparr>table := (table t)[k := take i (table t ! k) @ drop (Suc i) (table t ! k)],
                        nbElems := nbElems t - 1\<rparr>)"
    and "name (table t ! k ! i) \<notin>
           name ` set (concat ((table t)[k := take i (table t ! k) @ drop (Suc i) (table t ! k)]))"
proof -
  let ?c = "take i (table t ! k) @ drop (Suc i) (table t ! k)"
  let ?tab = "(table t)[k := ?c]"
  let ?e = "table t ! k ! i"
  have m: "add_mset ?e (mset (concat ?tab)) = mset (concat (table t))"
    using assms(2,3) by (rule unlink_mset)
  have "mset (map name (concat (table t))) = add_mset (name ?e) (mset (map name (concat ?tab)))"
    using m by (metis image_mset_add_mset mset_map)
  then have "mset (map name (concat (table t))) = mset (name ?e # map name (concat ?tab))"
    by simp
  then have "distinct (name ?e # map name (concat ?tab))"
    using assms(1) by (metis mset_eq_imp_distinct_iff wf_table_def)
  then have d: "distinct (map name (concat ?tab))" and n: "name ?e \<notin> name ` set (concat ?tab)"
    by simp_all
  have l: "length (concat (table t)) = Suc (length (concat ?tab))"
    using m [THEN arg_cong, of size] by simp
  then have "nbElems t \<noteq> 0"
    using assms(1) by (auto simp: wf_table_def)
  then have c: "unat (nbElems t - 1) = length (concat ?tab)"
    using l assms(1) by (simp add: unat_pred_size_t wf_table_def)
  have b: "\<forall>j < length ?tab. \<forall>e \<in> set (?tab ! j).
        unat (virHashComputeKey H t (name e)) = j"
  proof (intro allI impI ballI)
    fix j e
    assume j: "j < length ?tab" and e: "e \<in> set (?tab ! j)"
    have "set ?c \<subseteq> set (table t ! k)"
      by (metis set_take_subset set_drop_subset set_append Un_least)
    with e j have "e \<in> set (table t ! j)"
      by (cases "j = k") auto
    then show "unat (virHashComputeKey H t (name e)) = j"
      using assms(1) j by (auto simp: wf_table_def)
  qed
  show "wf_table H (t\<lparr>table := ?tab, nbElems := nbElems t - 1\<rparr>)"
    using assms(1) b c d by (simp add: wf_table_def virHashComputeKey_def)
  show "name ?e \<notin> name ` set (concat ?tab)" by (rule n)
qed

lemma remove_absent:
  "\<not> virHashHasEntry H p nm w \<Longrightarrow> virHashRemoveEntry H p nm w = (- 1, w)"
  by (auto simp: virHashHasEntry_def virHashGetEntry_def virHashRemoveEntry_def Let_def
      split: option.splits if_splits)

lemma remove_present:
  assumes "p \<noteq> NULL"
    and "chain_index n (table (heap w p) ! unat (virHashComputeKey H (heap w p) n)) = Some i"
  shows "virHashRemoveEntry H p (Some n) w =
           (let t = heap w p;
                k = unat (virHashComputeKey H t n);
                chain = table t ! k
            in (0, w\<lparr>freed := freed w @
                       (if dataFree t = NULL then [] else [(dataFree t, payload (chain ! i))]),
                     heap := (heap w)
                       (p := t\<lparr>table := (table t)[k := take i chain @ drop (Suc i) chain],
                               nbElems := nbElems t - 1\<rparr>)\<rparr>))"
  using assms by (simp add: virHashRemoveEntry_def Let_def)

lemma remove_wf:
  assumes "wf_table H (heap w p)"
  shows "wf_table H (heap (snd (virHashRemoveEntry H p nm w)) p)"
    and "length (concat (table (heap (snd (virHashRemoveEntry H p nm w)) p)))
           \<le> length (concat (table (heap w p)))"
proof -
  let ?t = "heap w p"
  have "wf_table H (heap (snd (virHashRemoveEntry H p nm w)) p) \<and>
        length (concat (table (heap (snd (virHashRemoveEntry H p nm w)) p)))
           \<le> length (concat (table (heap w p)))"
  proof (cases "virHashHasEntry H p nm w")
    case False
    then show ?thesis using assms by (simp add: remove_absent)
  next
    case True
    then obtain n where nm: "nm = Some n"
      by (cases nm) (auto simp: virHashHasEntry_def virHashGetEntry_def)
    let ?k = "unat (virHashComputeKey H ?t n)"
    from hasEntry_index [OF True [unfolded nm]] obtain i
      where p: "p \<noteq> NULL" and i: "chain_index n (table ?t ! ?k) = Some i"
      by auto
    from chain_index_Some [OF i] have il: "i < length (table ?t ! ?k)" by simp
    have k: "?k < length (table ?t)" using assms(1) by (rule wf_key_less)
    have "length (concat (table ?t)) =
        Suc (length (concat ((table ?t)[?k := take i (table ?t ! ?k) @ drop (Suc i) (table ?t ! ?k)])))"
      using unlink_mset [OF k il, THEN arg_cong, of size] by simp
    then show ?thesis
      using unlink_wf(1) [OF assms k il] by (simp add: nm remove_present [OF p i] Let_def)
  qed
  then show "wf_table H (heap (snd (virHashRemoveEntry H p nm w)) p)"
    and "length (concat (table (heap (snd (virHashRemoveEntry H p nm w)) p)))
           \<le> length (concat (table (heap w p)))"
    by simp_all
qed

lemma remove_success_size:
  assumes "fst (virHashRemoveEntry H p (Some n) w) = 0"
  shows "virHashSize p (snd (virHashRemoveEntry H p (Some n) w)) = virHashSize p w - 1"
proof -
  have h: "virHashHasEntry H p (Some n) w"
  proof (rule ccontr)
    assume "\<not> virHashHasEntry H p (Some n) w"
    then have "virHashRemoveEntry H p (Some n) w = (- 1, w)" by (rule remove_absent)
    with assms show False by simp
  qed
  from hasEntry_index [OF h] obtain i where p: "p \<noteq> NULL"
    and i: "chain_index n (table (heap w p) ! unat (virHashComputeKey H (heap w p) n)) = Some i"
    by auto
  show ?thesis
    using p by (simp add: remove_present [OF p i] Let_def virHashSize_def)
qed

lemma steal_present:
  assumes "p \<noteq> NULL"
    and "chain_index n (table (heap w p) ! unat (virHashComputeKey H (heap w p) n)) = Some i"
    and "payload (table (heap w p) ! unat (virHashComputeKey H (heap w p) n) ! i) \<noteq> NULL"
  shows "virHashSteal H p (Some n) w =
           (let t = heap w p;
                k = unat (virHashComputeKey H t n);
                chain = table t ! k
            in (payload (chain ! i),
                w\<lparr>heap := (heap w)
                     (p := t\<lparr>table := (table t)[k := take i chain @ drop (Suc i) chain],
                             nbElems := nbElems t - 1\<rparr>)\<rparr>))"
proof -
  let ?w1 = "w\<lparr>heap := (heap w)(p := (heap w p)\<lparr>dataFree := NULL\<rparr>)\<rparr>"
  have i1: "chain_index n (table (heap ?w1 p) ! unat (virHashComputeKey H (heap ?w1 p) n)) = Some i"
    using assms(2) by simp
  show ?thesis
    using assms(1,3)
    by (simp add: virHashSteal_def lookup_index [OF assms(1,2)] remove_present [OF assms(1) i1]
        Let_def)
qed

lemma steal_wf:
  assumes "wf_table H (heap w p)"
  shows "wf_table H (heap (snd (virHashSteal H p nm w)) p) \<and>
         length (concat (table (heap (snd (virHashSteal H p nm w)) p)))
           \<le> length (concat (table (heap w p)))"
proof (cases "virHashLookup H p nm w = NULL")
  case True
  then show ?thesis using assms by (simp add: virHashSteal_def)
next
  case False
  then have has: "virHashHasEntry H p nm w"
    using lookup_absent [of H p nm w] by auto
  then obtain n where nm: "nm = Some n"
    by (cases nm) (auto simp: virHashHasEntry_def virHashGetEntry_def)
  let ?t = "heap w p"
  let ?k = "unat (virHashComputeKey H ?t n)"
  from hasEntry_index [OF has [unfolded nm]] obtain i
    where p: "p \<noteq> NULL" and i: "chain_index n (table ?t ! ?k) = Some i"
    by auto
  from chain_index_Some [OF i] have il: "i < length (table ?t ! ?k)" by simp
  have k: "?k < length (table ?t)" using assms by (rule wf_key_less)
  have pl: "payload (table ?t ! ?k ! i) \<noteq> NULL"
    using False lookup_index [OF p i] by (simp add: nm)
  have "length (concat (table ?t)) =
      Suc (length (concat ((table ?t)[?k := take i (table ?t ! ?k) @ drop (Suc i) (table ?t ! ?k)])))"
    using unlink_mset [OF k il, THEN arg_cong, of size] by simp
  then show ?thesis
    using unlink_wf(1) [OF assms k il] by (simp add: nm steal_present [OF p i pl] Let_def)
qed

lemma removeSet_chain_mset:
  "removeSet_chain iter c opaque = ((kept, removed), opaque') \<Longrightarrow>
   mset kept + mset removed = mset c"
proof (induction c arbitrary: opaque kept removed opaque')
  case Nil
  then show ?case by simp
next
  case (Cons e es)
  obtain r o1 where r: "iter (payload e) (name e) opaque = (r, o1)"
    by (cases "iter (payload e) (name e) opaque")
  obtain kp rm o2 where s: "removeSet_chain iter es o1 = ((kp, rm), o2)"
    by (cases "removeSet_chain iter es o1") auto
  from Cons.IH [OF s] Cons.prems r s show ?case
    by (auto split: if_splits)
qed

lemma shrink_chain_wf:
  assumes "wf_table H t" and "k < length (table t)"
    and "mset c + mset r = mset (table t ! k)"
  shows "wf_table H (t\<lparr>table := (table t)[k := c], nbElems := nbElems t - of_nat (length r)\<rparr>)"
    and "length (concat ((table t)[k := c])) + length r = length (concat (table t))"
proof -
  let ?tab = "(table t)[k := c]"
  have "mset (concat ?tab) + mset (table t ! k) = mset (concat (table t)) + mset c"
    using assms(2) by (rule mset_concat_update)
  then have "mset (concat ?tab) + (mset c + mset r) = mset (concat (table t)) + mset c"
    by (simp only: assms(3))
  then have m: "mset (concat ?tab) + mset r = mset (concat (table t))"
    by simp
  show l: "length (concat ?tab) + length r = length (concat (table t))"
    using m [THEN arg_cong, of size] by simp
  have "mset (map name (concat (table t)))
      = mset (map name (concat ?tab)) + mset (map name r)"
    using m [THEN arg_cong, of "image_mset name"] by simp
  then have "mset (map name (concat (table t))) = mset (map name (concat ?tab) @ map name r)"
    by simp
  then have "distinct (map name (concat ?tab) @ map name r)"
    using assms(1) by (metis mset_eq_imp_distinct_iff wf_table_def)
  then have d: "distinct (map name (concat ?tab))"
    by simp
  have "length r \<le> unat (nbElems t)"
    using l assms(1) by (simp add: wf_table_def)
  then have "unat (nbElems t - of_nat (length r)) = unat (nbElems t) - length r"
    by (rule size_t_sub_of_nat)
  then have c: "unat (nbElems t - of_nat (length r)) = length (concat ?tab)"
    using l assms(1) by (simp add: wf_table_def)
  have b: "\<forall>j < length ?tab. \<forall>e \<in> set (?tab ! j).
        unat (virHashComputeKey H t (name e)) = j"
  proof (intro allI impI ballI)
    fix j e
    assume j: "j < length ?tab" and e: "e \<in> set (?tab ! j)"
    have "set c \<subseteq> set (table t ! k)"
      using assms(3) [THEN arg_cong, of set_mset] by auto
    with e j have "e \<in> set (table t ! j)"
      by (cases "j = k") auto
    then show "unat (virHashComputeKey H t (name e)) = j"
      using assms(1) j by (auto simp: wf_table_def)
  qed
  show "wf_table H (t\<lparr>table := ?tab, nbElems := nbElems t - of_nat (length r)\<rparr>)"
    using assms(1) b c d by (simp add: wf_table_def virHashComputeKey_def)
qed

lemma removeSet_buckets_wf:
  assumes "wf_table H (heap w p)" and "\<forall>j \<in> set js. j < length (table (heap w p))"
  shows "wf_table H (heap (snd (snd (removeSet_buckets iter p js (cnt, opaque, w)))) p) \<and>
         length (concat (table (heap (snd (snd (removeSet_buckets iter p js (cnt, opaque, w)))) p)))
           \<le> length (concat (table (heap w p)))"
  using assms
proof (induction js arbitrary: cnt opaque w)
  case Nil
  then show ?case by simp
next
  case (Cons i js)
  let ?t = "heap w p"
  obtain kept removed o1 where c: "removeSet_chain iter (table ?t ! i) opaque = ((kept, removed), o1)"
    by (cases "removeSet_chain iter (table ?t ! i) opaque") auto
  let ?t1 = "?t\<lparr>table := (table ?t)[i := kept], nbElems := nbElems ?t - of_nat (length removed)\<rparr>"
  let ?w1 = "w\<lparr>heap := (heap w)(p := ?t1),
               freed := freed w @ (if dataFree ?t \<noteq> NULL
                                   then map (\<lambda>e. (dataFree ?t, payload e)) removed else [])\<rparr>"
  have i: "i < length (table ?t)" using Cons.prems(2) by simp
  note s = shrink_chain_wf [OF Cons.prems(1) i removeSet_chain_mset [OF c]]
  have wf1: "wf_table H (heap ?w1 p)"
    using s(1) by simp
  have js: "\<forall>j \<in> set js. j < length (table (heap ?w1 p))"
    using Cons.prems(2) by simp
  have "length (concat (table (heap ?w1 p))) \<le> length (concat (table ?t))"
    using s(2) by simp
  with Cons.IH [OF wf1 js, of "cnt + of_nat (length removed)" o1] show ?case
    by (simp add: c Let_def)
qed

lemma removeSet_wf:
  assumes "wf_table H (heap w p)"
  shows "wf_table H (heap (snd (snd (virHashRemoveSet p iter opaque w))) p) \<and>
         length (concat (table (heap (snd (snd (virHashRemoveSet p iter opaque w))) p)))
           \<le> length (concat (table (heap w p)))"
proof (cases "p = NULL \<or> iter = None")
  case True
  then show ?thesis
    using assms by (auto simp: virHashRemoveSet_def split: option.splits)
next
  case False
  then obtain f where f: "iter = Some f" and p: "p \<noteq> NULL" by auto
  have "\<forall>j \<in> set [0..<unat (size_tab (heap w p))]. j < length (table (heap w p))"
    using assms by (simp add: wf_table_def)
  from removeSet_buckets_wf [OF assms this] show ?thesis
    using p by (simp add: virHashRemoveSet_def f)
qed

subsection \<open>Sequences of operations keep a table well formed\<close>

lemma apply_op_wf:
  assumes "wf_table H (heap w p)" and "Suc (length (concat (table (heap w p)))) < 2 ^ 64"
  shows "wf_table H (heap (apply_op H p x w) p)"
    and "length (concat (table (heap (apply_op H p x w) p)))
           \<le> Suc (length (concat (table (heap w p))))"
proof -
  have "unat (- 1 :: size_t) = 2 ^ 64 - 1"
    by (simp add: unsigned_minus_1_eq_mask mask_eq_exp_minus_1)
  then have "unat (nbElems (heap w p)) \<noteq> unat (- 1 :: size_t)"
    using assms by (simp add: wf_table_def)
  then have n: "nbElems (heap w p) \<noteq> - 1" by auto
  have "wf_table H (heap (apply_op H p x w) p) \<and>
        length (concat (table (heap (apply_op H p x w) p)))
           \<le> Suc (length (concat (table (heap w p))))"
  proof (cases x)
    case (Add n v)
    then show ?thesis
      using addOrUpdate_wf [OF assms(1) n] addOrUpdate_entries_le [OF assms(1)]
      by (simp add: virHashAddEntry_def)
  next
    case (Update n v)
    then show ?thesis
      using addOrUpdate_wf [OF assms(1) n] addOrUpdate_entries_le [OF assms(1)]
      by (simp add: virHashUpdateEntry_def)
  next
    case (Remove n)
    then show ?thesis
      using remove_wf [OF assms(1)] by (simp add: le_SucI)
  next
    case (Steal n)
    then show ?thesis
      using steal_wf [OF assms(1)] by (simp add: le_SucI)
  next
    case (RemoveSet f)
    then show ?thesis
      using removeSet_wf [OF assms(1),
          where iter = "Some (\<lambda>pl n opaque. (f pl n, opaque))" and opaque = "()"]
      by (simp add: le_SucI)
  qed
  then show "wf_table H (heap (apply_op H p x w) p)"
    and "length (concat (table (heap (apply_op H p x w) p)))
           \<le> Suc (length (concat (table (heap w p))))"
    by simp_all
qed

lemma run_ops_wf:
  assumes "wf_table H (heap w p)"
    and "length (concat (table (heap w p))) + length ops < 2 ^ 64"
  shows "wf_table H (heap (run_ops H p ops w) p) \<and>
         length (concat (table (heap (run_ops H p ops w) p)))
           \<le> length (concat (table (heap w p))) + length ops"
  using assms
proof (induction ops arbitrary: w)
  case Nil
  then show ?case by (simp add: run_ops_def)
next
  case (Cons x xs)
  have s: "Suc (length (concat (table (heap w p)))) < 2 ^ 64"
    using Cons.prems(2) by simp
  note a = apply_op_wf [OF Cons.prems(1) s, of x]
  have "length (concat (table (heap (apply_op H p x w) p))) + length xs < 2 ^ 64"
    using a(2) Cons.prems(2) by simp
  from Cons.IH [OF a(1) this] a(2) show ?case
    by (simp add: run_ops_def)
qed

subsection \<open>Comparison of two tables\<close>

lemma equal_search_chain:
  assumes "table2 vhed = tbl2" and "compar vhed = cmp"
  shows "snd (search_chain (virHashEqualSearcher H w) es vhed) =
           (if \<forall>e \<in> set es. equal_entry H w tbl2 cmp e then vhed
            else vhed\<lparr>equal_vhed := False\<rparr>) \<and>
         (fst (search_chain (virHashEqualSearcher H w) es vhed) = None \<longleftrightarrow>
            (\<forall>e \<in> set es. equal_entry H w tbl2 cmp e))"
  using assms
  by (induction es) (auto simp: virHashEqualSearcher_def equal_entry_def Let_def)

lemma equal_search_buckets:
  assumes "table2 vhed = tbl2" and "compar vhed = cmp"
  shows "snd (search_buckets (virHashEqualSearcher H w) css vhed) =
           (if \<forall>e \<in> set (concat css). equal_entry H w tbl2 cmp e then vhed
            else vhed\<lparr>equal_vhed := False\<rparr>)"
proof (induction css)
  case Nil
  then show ?case by simp
next
  case (Cons c cs)
  note ch = equal_search_chain [OF assms, of H w c]
  show ?case
  proof (cases "search_chain (virHashEqualSearcher H w) c vhed")
    case (Pair r vhed')
    show ?thesis
    proof (cases r)
      case None
      with Pair ch have "\<forall>e \<in> set c. equal_entry H w tbl2 cmp e" "vhed' = vhed"
        by auto
      then show ?thesis
        using Pair None Cons.IH by auto
    next
      case (Some e)
      with Pair ch have "\<not> (\<forall>e \<in> set c. equal_entry H w tbl2 cmp e)"
        "vhed' = vhed\<lparr>equal_vhed := False\<rparr>"
        by auto
      then show ?thesis
        using Pair Some by auto
    qed
  qed
qed

lemma search_opaque:
  "p \<noteq> NULL \<Longrightarrow>
   snd (snd (virHashSearch p (Some f) d want w)) =
     snd (search_buckets f (map (\<lambda>i. table (heap w p) ! i) [0..<unat (size_tab (heap w p))]) d)"
  by (simp add: virHashSearch_def Let_def split: prod.splits option.splits)

lemma virHashEqual_entries:
  assumes "t1 \<noteq> t2" and "t1 \<noteq> NULL" and "t2 \<noteq> NULL"
    and "virHashSize t1 w = virHashSize t2 w"
    and "length (table (heap w t1)) = unat (size_tab (heap w t1))"
  shows "virHashEqual H t1 t2 cmp w \<longleftrightarrow>
           (\<forall>e \<in> set (concat (table (heap w t1))). equal_entry H w t2 cmp e)"
proof -
  have "map (\<lambda>i. table (heap w t1) ! i) [0..<unat (size_tab (heap w t1))] = table (heap w t1)"
    using assms(5) by (metis map_nth)
  then show ?thesis
    using assms(1-4)
    by (simp add: virHashEqual_def Let_def search_opaque equal_search_buckets)
qed

lemma equal_entry_keys:
  assumes "wf_table H (heap w t1)" and "t1 \<noteq> NULL"
  shows "(\<forall>e \<in> set (concat (table (heap w t1))). equal_entry H w t2 cmp e) \<longleftrightarrow>
         (\<forall>n. virHashHasEntry H t1 (Some n) w \<longrightarrow>
            virHashLookup H t2 (Some n) w \<noteq> NULL \<and>
            cmp (virHashLookup H t2 (Some n) w) (virHashLookup H t1 (Some n) w) = 0)"
proof
  assume a: "\<forall>e \<in> set (concat (table (heap w t1))). equal_entry H w t2 cmp e"
  show "\<forall>n. virHashHasEntry H t1 (Some n) w \<longrightarrow>
            virHashLookup H t2 (Some n) w \<noteq> NULL \<and>
            cmp (virHashLookup H t2 (Some n) w) (virHashLookup H t1 (Some n) w) = 0"
  proof (intro allI impI)
    fix n
    assume "virHashHasEntry H t1 (Some n) w"
    then obtain e where e: "virHashGetEntry H t1 (Some n) w = Some e"
      by (auto simp: virHashHasEntry_def)
    then have "e \<in> set (concat (table (heap w t1)))" "name e = n"
      using getEntry_wf [OF assms] by simp_all
    with a e show "virHashLookup H t2 (Some n) w \<noteq> NULL \<and>
            cmp (virHashLookup H t2 (Some n) w) (virHashLookup H t1 (Some n) w) = 0"
      by (auto simp: equal_entry_def virHashLookup_def)
  qed
next
  assume a: "\<forall>n. virHashHasEntry H t1 (Some n) w \<longrightarrow>
            virHashLookup H t2 (Some n) w \<noteq> NULL \<and>
            cmp (virHashLookup H t2 (Some n) w) (virHashLookup H t1 (Some n) w) = 0"
  show "\<forall>e \<in> set (concat (table (heap w t1))). equal_entry H w t2 cmp e"
  proof
    fix e
    assume "e \<in> set (concat (table (heap w t1)))"
    then have "virHashGetEntry H t1 (Some (name e)) w = Some e"
      using getEntry_wf [OF assms] by simp
    then have "virHashHasEntry H t1 (Some (name e)) w"
      "virHashLookup H t1 (Some (name e)) w = payload e"
      by (simp_all add: virHashHasEntry_def virHashLookup_def)
    with a show "equal_entry H w t2 cmp e"
      by (auto simp: equal_entry_def)
  qed
qed

subsection \<open>Sorting and snapshots\<close>

lemma strcmp_sign:
  "(strcmp a b < 0 \<longleftrightarrow> a < b) \<and> (strcmp a b = 0 \<longleftrightarrow> a = b) \<and> (0 < strcmp a b \<longleftrightarrow> b < a)"
proof (induction a b rule: strcmp.induct)
  case (4 a as b bs)
  have "(of_char a :: nat) < of_char b \<or> (of_char b :: nat) < of_char a" if "a \<noteq> b"
    using that by (metis of_char_eq_iff nat_neq_iff)
  with 4 show ?case
    by (auto simp: less_char_def)
qed simp_all

lemma strcmp_le: "strcmp a b \<le> 0 \<longleftrightarrow> a \<le> b"
  using strcmp_sign [of a b] by auto

lemma keySorter_le:
  "virHashGetItemsKeySorter a b \<le> 0 \<longleftrightarrow> item_name a \<le> item_name b"
  by (simp add: virHashGetItemsKeySorter_def item_name_def strcmp_le)

lemma mset_qsort_insert: "mset (qsort_insert cmp x ys) = add_mset x (mset ys)"
  by (induction ys) auto

lemma mset_qsort: "mset (qsort cmp xs) = mset xs"
  by (induction xs) (simp_all add: qsort_def mset_qsort_insert)

lemma set_qsort_insert: "set (qsort_insert cmp x ys) = insert x (set ys)"
  using mset_qsort_insert [of cmp x ys, THEN arg_cong, of set_mset] by simp

lemma sorted_qsort_insert:
  "sorted (map item_name ys) \<Longrightarrow>
   sorted (map item_name (qsort_insert virHashGetItemsKeySorter x ys))"
  by (induction ys) (auto simp: keySorter_le set_qsort_insert)

lemma sorted_qsort: "sorted (map item_name (qsort virHashGetItemsKeySorter xs))"
proof (induction xs)
  case Nil
  then show ?case by (simp add: qsort_def)
next
  case (Cons x xs)
  then show ?case
    using sorted_qsort_insert [of "qsort virHashGetItemsKeySorter xs" x]
    by (simp add: qsort_def)
qed

lemma length_qsort: "length (qsort cmp xs) = length xs"
  using mset_qsort [of cmp xs, THEN arg_cong, of size] by simp

lemma qsort_unique:
  assumes "mset ys = mset xs" and "sorted (map item_name ys)"
    and "distinct (map item_name xs)"
  shows "ys = qsort virHashGetItemsKeySorter xs"
proof -
  let ?q = "qsort virHashGetItemsKeySorter xs"
  have mq: "mset ?q = mset xs"
    by (rule mset_qsort)
  have "mset (map item_name ys) = mset (map item_name xs)"
    using assms(1) by (metis mset_map)
  then have d1: "distinct (map item_name ys)"
    using assms(3) by (metis mset_eq_imp_distinct_iff)
  have "mset (map item_name ?q) = mset (map item_name xs)"
    using mq by (metis mset_map)
  then have d2: "distinct (map item_name ?q)"
    using assms(3) by (metis mset_eq_imp_distinct_iff)
  have s: "set ys = set xs" "set ?q = set xs"
    using assms(1) mq by (metis mset_eq_setD)+
  then have "set (map item_name ys) = set (map item_name ?q)"
    by simp
  then have e: "map item_name ys = map item_name ?q"
    using assms(2) d1 sorted_qsort d2 by (metis sorted_distinct_set_unique)
  have "inj_on item_name (set xs)"
    using assms(3) by (simp add: distinct_map)
  then have "inj_on item_name (set ys \<union> set ?q)"
    using s by simp
  with e show ?thesis
    by (rule map_inj_on)
qed

lemma getItemsIterator_step:
  "virHashGetItemsIterator (payload e) (name e) (items, i) =
     (0, (items[unat i := item_of e], i + 1))"
  by (simp add: virHashGetItemsIterator_def item_of_def)

lemma forEach_chain_items:
  assumes "unat i + length es \<le> length items" and "length items < 2 ^ 64"
  shows "forEach_chain virHashGetItemsIterator es (items, i) =
           (0, (take (unat i) items @ map item_of es @ drop (unat i + length es) items,
                i + of_nat (length es)))"
  using assms
proof (induction es arbitrary: items i)
  case Nil
  then show ?case by simp
next
  case (Cons e es)
  let ?items = "items[unat i := item_of e]"
  have u: "unat (i + 1) = unat i + 1"
    using Cons.prems size_t_add_of_nat [of i 1] by simp
  have "forEach_chain virHashGetItemsIterator es (?items, i + 1) =
           (0, (take (unat (i + 1)) ?items @ map item_of es
                  @ drop (unat (i + 1) + length es) ?items,
                i + 1 + of_nat (length es)))"
    using Cons.prems u by (intro Cons.IH) simp_all
  moreover have "take (unat i + 1) ?items = take (unat i) items @ [item_of e]"
    using Cons.prems by (simp add: take_Suc_conv_app_nth)
  moreover have "drop (unat i + 1 + length es) ?items = drop (unat i + 1 + length es) items"
    by simp
  ultimately show ?case
    by (simp add: getItemsIterator_step u add.assoc)
qed

lemma forEach_buckets_items:
  assumes "unat i + length (concat css) \<le> length items" and "length items < 2 ^ 64"
  shows "forEach_buckets virHashGetItemsIterator css (items, i) =
           (0, (take (unat i) items @ map item_of (concat css)
                  @ drop (unat i + length (concat css)) items,
                i + of_nat (length (concat css))))"
  using assms
proof (induction css arbitrary: items i)
  case Nil
  then show ?case by simp
next
  case (Cons c cs)
  let ?items = "take (unat i) items @ map item_of c @ drop (unat i + length c) items"
  let ?i = "i + of_nat (length c)"
  have c: "forEach_chain virHashGetItemsIterator c (items, i) = (0, (?items, ?i))"
    using Cons.prems by (intro forEach_chain_items) simp_all
  have u: "unat ?i = unat i + length c"
    using Cons.prems by (intro size_t_add_of_nat) simp
  have l: "length ?items = length items"
    using Cons.prems by simp
  have "forEach_buckets virHashGetItemsIterator cs (?items, ?i) =
           (0, (take (unat ?i) ?items @ map item_of (concat cs)
                  @ drop (unat ?i + length (concat cs)) ?items,
                ?i + of_nat (length (concat cs))))"
    using Cons.prems u l by (intro Cons.IH) simp_all
  moreover have "take (unat i + length c) ?items = take (unat i) items @ map item_of c"
    using Cons.prems by simp
  moreover have "drop (unat i + length c + length (concat cs)) ?items
      = drop (unat i + length c + length (concat cs)) items"
    using Cons.prems by (simp add: add.commute add.left_commute)
  ultimately show ?case
    by (simp add: c u add.assoc)
qed

lemma forEach_items_record:
  assumes "\<forall>it \<in> set its. key it \<noteq> None"
  shows "forEach_items record_name (its @ sentinel # rest) acc = (0, acc @ map item_name its)"
  using assms
proof (induction its arbitrary: acc)
  case Nil
  then show ?case by (simp add: sentinel_def)
next
  case (Cons it its)
  then obtain k where k: "key it = Some k" by auto
  with Cons show ?case
    by (simp add: record_name_def item_name_def)
qed

lemma item_name_item_of [simp]: "item_name (item_of e) = name e"
  by (simp add: item_name_def item_of_def)

lemma key_item_of [simp]: "key (item_of e) \<noteq> None"
  by (simp add: item_of_def)

lemma item_of_image:
  "\<lparr>key = Some nm, value_kv = v\<rparr> \<in> item_of ` S \<longleftrightarrow> \<lparr>name = nm, payload = v\<rparr> \<in> S"
proof
  assume "\<lparr>key = Some nm, value_kv = v\<rparr> \<in> item_of ` S"
  then obtain e where e: "e \<in> S" "item_of e = \<lparr>key = Some nm, value_kv = v\<rparr>"
    by auto
  then have "e = \<lparr>name = nm, payload = v\<rparr>"
    by (cases e) (simp add: item_of_def)
  with e(1) show "\<lparr>name = nm, payload = v\<rparr> \<in> S" by simp
next
  assume "\<lparr>name = nm, payload = v\<rparr> \<in> S"
  then have "item_of \<lparr>name = nm, payload = v\<rparr> \<in> item_of ` S"
    by (rule imageI)
  then show "\<lparr>key = Some nm, value_kv = v\<rparr> \<in> item_of ` S"
    by (simp add: item_of_def)
qed

lemma getItems_wf:
  assumes "wf_table H (heap w p)" and "p \<noteq> NULL" and "virHashSize p w \<noteq> - 1"
  shows "virHashGetItems p sortKeys w =
           (Some ((if sortKeys
                   then qsort virHashGetItemsKeySorter (map item_of (concat (table (heap w p))))
                   else map item_of (concat (table (heap w p)))) @ [sentinel]),
            virHashSize p w)"
proof -
  let ?t = "heap w p"
  let ?es = "concat (table ?t)"
  let ?items0 = "replicate (Suc (length ?es)) sentinel"
  have n: "unat (nbElems ?t) = length ?es"
    using assms(1) by (simp add: wf_table_def)
  have s: "virHashSize p w = nbElems ?t"
    using assms(2) by (simp add: virHashSize_def)
  have n1: "unat (nbElems ?t + 1) = Suc (length ?es)"
    using assms(3) s n size_t_succ [of "nbElems ?t"] by simp
  have "unat (nbElems ?t + 1) < 2 ^ 64"
    using unsigned_less [of "nbElems ?t + 1"] by simp
  then have lt: "Suc (length ?es) < 2 ^ 64"
    using n1 by simp
  have m: "map (\<lambda>i. table ?t ! i) [0..<unat (size_tab ?t)] = table ?t"
    using assms(1) by (metis map_nth wf_table_def)
  have "forEach_buckets virHashGetItemsIterator (table ?t) (?items0, 0) =
      (0, (take (unat (0 :: size_t)) ?items0 @ map item_of ?es
             @ drop (unat (0 :: size_t) + length ?es) ?items0,
           0 + of_nat (length ?es)))"
    using lt by (intro forEach_buckets_items) simp_all
  moreover have "drop (length ?es) ?items0 = [sentinel]"
    by (simp only: drop_replicate) simp
  ultimately have f: "fst (snd (virHashForEach p (Some virHashGetItemsIterator) (?items0, 0) w))
      = map item_of ?es @ [sentinel]"
    using assms(2) by (simp add: virHashForEach_def Let_def m del: replicate.simps)
  show ?thesis
    using f
    by (simp add: virHashGetItems_def Let_def s n n1 sentinel_def [symmetric] length_qsort
        del: replicate.simps)
qed

lemma item_in_snapshot:
  assumes "wf_table H (heap w p)" and "p \<noteq> NULL"
  shows "\<lparr>key = Some nm, value_kv = v\<rparr> \<in> item_of ` set (concat (table (heap w p))) \<longleftrightarrow>
           virHashHasEntry H p (Some nm) w \<and> virHashLookup H p (Some nm) w = v"
proof -
  have "\<lparr>key = Some nm, value_kv = v\<rparr> \<in> item_of ` set (concat (table (heap w p))) \<longleftrightarrow>
      \<lparr>name = nm, payload = v\<rparr> \<in> set (concat (table (heap w p)))"
    by (rule item_of_image)
  also have "\<dots> \<longleftrightarrow> virHashGetEntry H p (Some nm) w = Some \<lparr>name = nm, payload = v\<rparr>"
    using getEntry_wf [OF assms, of nm "\<lparr>name = nm, payload = v\<rparr>"] by simp
  also have "\<dots> \<longleftrightarrow> virHashHasEntry H p (Some nm) w \<and> virHashLookup H p (Some nm) w = v"
  proof
    assume "virHashGetEntry H p (Some nm) w = Some \<lparr>name = nm, payload = v\<rparr>"
    then show "virHashHasEntry H p (Some nm) w \<and> virHashLookup H p (Some nm) w = v"
      by (simp add: virHashHasEntry_def virHashLookup_def)
  next
    assume a: "virHashHasEntry H p (Some nm) w \<and> virHashLookup H p (Some nm) w = v"
    then obtain e where e: "virHashGetEntry H p (Some nm) w = Some e"
      by (auto simp: virHashHasEntry_def)
    then have "name e = nm" using getEntry_wf [OF assms] by simp
    moreover have "payload e = v" using a e by (simp add: virHashLookup_def)
    ultimately have "e = \<lparr>name = nm, payload = v\<rparr>"
      by (cases e) simp
    with e show "virHashGetEntry H p (Some nm) w = Some \<lparr>name = nm, payload = v\<rparr>"
      by simp
  qed
  finally show ?thesis .
qed

subsection \<open>The sample tables\<close>

lemma world_a_eval:
  "world_a = \<lparr>heap = (heap empty_world)
      (2 := \<lparr>table = (replicate 32 [])[1 := [\<lparr>name = ''a'', payload = 5\<rparr>]],
             seed = 0, size_tab = 32, nbElems = 1, dataFree = 7\<rparr>),
     freed = [], errors = []\<rparr>"
  by (simp add: world_a_def virHashNew_def empty_world_def virHashAddEntry_def
      virHashAddOrUpdateEntry_def Let_def virHashComputeKey_def sample_hash_def strlen_def
      MAX_HASH_LEN_def)

lemma world_a_has: "virHashHasEntry sample_hash 2 (Some ''a'') world_a"
  by (simp add: world_a_eval virHashHasEntry_def virHashGetEntry_def Let_def
      virHashComputeKey_def sample_hash_def strlen_def)

lemma world_a_lookup: "virHashLookup sample_hash 2 (Some ''a'') world_a = 5"
  by (simp add: world_a_eval virHashLookup_def virHashGetEntry_def Let_def
      virHashComputeKey_def sample_hash_def strlen_def)

lemma world_a_wf: "wf_table sample_hash (heap world_a 2)"
  unfolding world_a_def virHashAddEntry_def
proof (rule addOrUpdate_wf)
  show "wf_table sample_hash (heap (snd (virHashNew 2 0 7 empty_world)) 2)"
    by (rule virHashNew_wf)
  show "nbElems (heap (snd (virHashNew 2 0 7 empty_world)) 2) \<noteq> - 1"
    by (simp add: virHashNew_heap)
qed

lemma world_null_eval:
  "world_null = \<lparr>heap = (heap empty_world)
      (2 := \<lparr>table = (replicate 32 [])[1 := [\<lparr>name = ''a'', payload = NULL\<rparr>]],
             seed = 0, size_tab = 32, nbElems = 1, dataFree = 7\<rparr>),
     freed = [], errors = []\<rparr>"
  by (simp add: world_null_def virHashNew_def empty_world_def virHashAddEntry_def
      virHashAddOrUpdateEntry_def Let_def virHashComputeKey_def sample_hash_def strlen_def
      MAX_HASH_LEN_def)

lemma world_null_has: "virHashHasEntry sample_hash 2 (Some ''a'') world_null"
  by (simp add: world_null_eval virHashHasEntry_def virHashGetEntry_def Let_def
      virHashComputeKey_def sample_hash_def strlen_def)

lemma world_null_lookup: "virHashLookup sample_hash 2 (Some ''a'') world_null = NULL"
  by (simp add: world_null_eval virHashLookup_def virHashGetEntry_def Let_def
      virHashComputeKey_def sample_hash_def strlen_def)

lemma world_null_absent: "\<not> virHashHasEntry sample_hash 2 (Some ''bb'') world_null"
  by (simp add: world_null_eval virHashHasEntry_def virHashGetEntry_def Let_def
      virHashComputeKey_def sample_hash_def strlen_def)

lemma world_null_wf: "wf_table sample_hash (heap world_null 2)"
  unfolding world_null_def virHashAddEntry_def
proof (rule addOrUpdate_wf)
  show "wf_table sample_hash (heap (snd (virHashNew 2 0 7 empty_world)) 2)"
    by (rule virHashNew_wf)
  show "nbElems (heap (snd (virHashNew 2 0 7 empty_world)) 2) \<noteq> - 1"
    by (simp add: virHashNew_heap)
qed

lemma scenario_size:
  "virHashSize 2 (run_ops sample_hash 2 scenario_ops (snd (virHashNew 2 0 7 empty_world))) = 1"
  by (simp add: run_ops_def scenario_ops_def virHashNew_def empty_world_def virHashAddEntry_def
      virHashUpdateEntry_def virHashRemoveEntry_def
      virHashAddOrUpdateEntry_def Let_def virHashComputeKey_def sample_hash_def strlen_def
      MAX_HASH_LEN_def virHashSize_def)

lemma world_8_wf: "wf_table sample_hash (heap world_8 2)"
proof -
  let ?w0 = "snd (virHashNew 2 0 7 empty_world)"
  have a: "wf_table sample_hash (heap ?w0 2)"
    by (rule virHashNew_wf)
  have b: "length (concat (table (heap ?w0 2))) + length ops_8 < 2 ^ 64"
    by (simp add: virHashNew_heap ops_8_def)
  from run_ops_wf [OF a b] show ?thesis
    by (simp add: world_8_def)
qed

lemma world_8_eval:
  "heap world_8 2 =
     \<lparr>table = (replicate 32 [])[1 :=
        [\<lparr>name = ''a'', payload = 11\<rparr>, \<lparr>name = ''b'', payload = 12\<rparr>,
         \<lparr>name = ''c'', payload = 13\<rparr>, \<lparr>name = ''d'', payload = 14\<rparr>,
         \<lparr>name = ''e'', payload = 15\<rparr>, \<lparr>name = ''f'', payload = 16\<rparr>,
         \<lparr>name = ''g'', payload = 17\<rparr>, \<lparr>name = ''h'', payload = 18\<rparr>]],
       seed = 0, size_tab = 32, nbElems = 8, dataFree = 7\<rparr>"
  by (simp add: world_8_def ops_8_def run_ops_def virHashNew_def empty_world_def virHashAddEntry_def
      virHashAddOrUpdateEntry_def Let_def virHashComputeKey_def sample_hash_def strlen_def
      MAX_HASH_LEN_def)

lemma world_9_eval:
  "heap world_9 2 =
     \<lparr>table = (replicate 32 [])[1 :=
        [\<lparr>name = ''a'', payload = 11\<rparr>, \<lparr>name = ''b'', payload = 12\<rparr>,
         \<lparr>name = ''c'', payload = 13\<rparr>, \<lparr>name = ''d'', payload = 14\<rparr>,
         \<lparr>name = ''e'', payload = 15\<rparr>, \<lparr>name = ''f'', payload = 16\<rparr>,
         \<lparr>name = ''g'', payload = 17\<rparr>, \<lparr>name = ''h'', payload = 18\<rparr>,
         \<lparr>name = ''i'', payload = 19\<rparr>]],
       seed = 0, size_tab = 32, nbElems = 9, dataFree = 7\<rparr>"
  by (simp add: world_9_def world_8_eval virHashAddEntry_def
      virHashAddOrUpdateEntry_def Let_def virHashComputeKey_def sample_hash_def strlen_def
      MAX_HASH_LEN_def)

lemma world_two_eval:
  "world_two = \<lparr>heap = (heap empty_world)
      (2 := \<lparr>table = (replicate 32 [])[1 := [\<lparr>name = ''a'', payload = 5\<rparr>]],
             seed = 0, size_tab = 32, nbElems = 1, dataFree = 7\<rparr>,
       3 := \<lparr>table = (replicate 32 [])[1 := [\<lparr>name = ''a'', payload = 5\<rparr>]],
             seed = 0, size_tab = 32, nbElems = 1, dataFree = 7\<rparr>),
     freed = [], errors = []\<rparr>"
  by (simp add: world_two_def world_a_eval virHashNew_def virHashAddEntry_def
      virHashAddOrUpdateEntry_def Let_def virHashComputeKey_def sample_hash_def strlen_def
      MAX_HASH_LEN_def)

lemma world_two_null_eval:
  "world_two_null = \<lparr>heap = (heap empty_world)
      (2 := \<lparr>table = (replicate 32 [])[1 := [\<lparr>name = ''a'', payload = NULL\<rparr>]],
             seed = 0, size_tab = 32, nbElems = 1, dataFree = 7\<rparr>,
       3 := \<lparr>table = (replicate 32 [])[1 := [\<lparr>name = ''a'', payload = NULL\<rparr>]],
             seed = 0, size_tab = 32, nbElems = 1, dataFree = 7\<rparr>),
     freed = [], errors = []\<rparr>"
  by (simp add: world_two_null_def world_null_eval virHashNew_def virHashAddEntry_def
      virHashAddOrUpdateEntry_def Let_def virHashComputeKey_def sample_hash_def strlen_def
      MAX_HASH_LEN_def)

lemma world_two_equal: "virHashEqual sample_hash 2 3 cmp_ptr world_two"
proof -
  have l: "virHashLookup sample_hash 3 (Some ''a'') world_two = 5"
    by (simp add: world_two_eval virHashLookup_def virHashGetEntry_def Let_def
        virHashComputeKey_def sample_hash_def strlen_def)
  have "virHashEqual sample_hash 2 3 cmp_ptr world_two \<longleftrightarrow>
      (\<forall>e \<in> set (concat (table (heap world_two 2))). equal_entry sample_hash world_two 3 cmp_ptr e)"
    by (rule virHashEqual_entries) (simp_all add: world_two_eval virHashSize_def)
  moreover have "concat (table (heap world_two 2)) = [\<lparr>name = ''a'', payload = 5\<rparr>]"
    by (simp add: world_two_eval concat_single_bucket)
  ultimately show ?thesis
    by (simp add: equal_entry_def l cmp_ptr_def)
qed

lemma world_two_null_not_equal:
  "\<not> virHashEqual sample_hash 2 3 cmp_always_equal world_two_null"
proof -
  have l: "virHashLookup sample_hash 3 (Some ''a'') world_two_null = NULL"
    by (simp add: world_two_null_eval virHashLookup_def virHashGetEntry_def Let_def
        virHashComputeKey_def sample_hash_def strlen_def)
  have "virHashEqual sample_hash 2 3 cmp_always_equal world_two_null \<longleftrightarrow>
      (\<forall>e \<in> set (concat (table (heap world_two_null 2))).
         equal_entry sample_hash world_two_null 3 cmp_always_equal e)"
    by (rule virHashEqual_entries) (simp_all add: world_two_null_eval virHashSize_def)
  moreover have "concat (table (heap world_two_null 2)) = [\<lparr>name = ''a'', payload = NULL\<rparr>]"
    by (simp add: world_two_null_eval concat_single_bucket)
  ultimately show ?thesis
    by (simp add: equal_entry_def l)
qed

lemma world_two_wf: "wf_table sample_hash (heap world_two 2)"
  using world_a_wf by (simp add: world_two_eval world_a_eval)

lemma world_two_null_wf: "wf_table sample_hash (heap world_two_null 2)"
  using world_null_wf by (simp add: world_two_null_eval world_null_eval)

lemma world_bac_wf: "wf_table sample_hash (heap world_bac 2)"
proof -
  let ?w0 = "snd (virHashNew 2 0 7 empty_world)"
  have a: "wf_table sample_hash (heap ?w0 2)"
    by (rule virHashNew_wf)
  have b: "length (concat (table (heap ?w0 2))) + length ops_bac < 2 ^ 64"
    by (simp add: virHashNew_heap ops_bac_def)
  from run_ops_wf [OF a b] show ?thesis
    by (simp add: world_bac_def)
qed

lemma world_bac_eval:
  "heap world_bac 2 =
     \<lparr>table = (replicate 32 [])[1 :=
        [\<lparr>name = ''b'', payload = 12\<rparr>, \<lparr>name = ''a'', payload = 11\<rparr>,
         \<lparr>name = ''c'', payload = 13\<rparr>]],
       seed = 0, size_tab = 32, nbElems = 3, dataFree = 7\<rparr>"
  by (simp add: world_bac_def ops_bac_def run_ops_def virHashNew_def empty_world_def
      virHashAddEntry_def virHashAddOrUpdateEntry_def Let_def virHashComputeKey_def
      sample_hash_def strlen_def MAX_HASH_LEN_def)

lemma world_bac_entries:
  "concat (table (heap world_bac 2)) =
     [\<lparr>name = ''b'', payload = 12\<rparr>, \<lparr>name = ''a'', payload = 11\<rparr>,
      \<lparr>name = ''c'', payload = 13\<rparr>]"
  by (simp add: world_bac_eval concat_single_bucket)

lemma world_bac_keys:
  "{nm. virHashHasEntry sample_hash 2 (Some nm) world_bac} = {''b'', ''a'', ''c''}"
  using hasEntry_wf [OF world_bac_wf] by (auto simp: world_bac_entries)

lemma world_bac_items:
  "virHashGetItems 2 True world_bac =
     (Some [\<lparr>key = Some ''a'', value_kv = 11\<rparr>, \<lparr>key = Some ''b'', value_kv = 12\<rparr>,
            \<lparr>key = Some ''c'', value_kv = 13\<rparr>, \<lparr>key = None, value_kv = NULL\<rparr>], 3)"
proof -
  have s: "virHashSize 2 world_bac = 3"
    by (simp add: virHashSize_def world_bac_eval)
  have "virHashSize 2 world_bac \<noteq> - 1"
    by (simp add: s)
  from getItems_wf [OF world_bac_wf _ this, of True] show ?thesis
    by (simp add: s world_bac_entries qsort_def item_of_def sentinel_def
        virHashGetItemsKeySorter_def)
qed

section \<open>The claims\<close>

subsection \<open>C1: the element count is the number of keys\<close>

text \<open>
  C1.  Starting from a table fresh from \<open>virHashNew\<close>, after any sequence of add,
  update, remove (also steal and removal by predicate) operations, \<open>virHashSize\<close> is
  the number of names that \<open>virHashHasEntry\<close> finds.  In such a table, adding a new key
  adds one to the count, updating an existing key leaves it as it is, and a removal
  that returns 0 takes one from it.  The count is a \<open>size_t\<close>: the sequence has fewer
  than \<open>2 ^ 64\<close> operations, more entries than that fit in no address space.
\<close>

theorem size_counts_distinct_keys:
  assumes "p \<noteq> NULL" and "length ops < 2 ^ 64"
  shows "let w' = run_ops H p ops (snd (virHashNew p rnd df w))
         in unat (virHashSize p w') = card {n. virHashHasEntry H p (Some n) w'} \<and>
            (\<forall>n v. \<not> virHashHasEntry H p (Some n) w' \<longrightarrow>
               virHashSize p (apply_op H p (Add n v) w') = virHashSize p w' + 1) \<and>
            (\<forall>n v. virHashHasEntry H p (Some n) w' \<longrightarrow>
               virHashSize p (apply_op H p (Update n v) w') = virHashSize p w') \<and>
            (\<forall>n. fst (virHashRemoveEntry H p (Some n) w') = 0 \<longrightarrow>
               virHashSize p (apply_op H p (Remove n) w') = virHashSize p w' - 1)"
proof -
  let ?w0 = "snd (virHashNew p rnd df w)"
  let ?w' = "run_ops H p ops ?w0"
  have wf0: "wf_table H (heap ?w0 p)" by (rule virHashNew_wf)
  have "length (concat (table (heap ?w0 p))) + length ops < 2 ^ 64"
    using assms(2) by (simp add: virHashNew_heap)
  from run_ops_wf [OF wf0 this] have wf: "wf_table H (heap ?w' p)" by simp
  have "unat (virHashSize p ?w') = card {n. virHashHasEntry H p (Some n) ?w'}"
    using card_keys_wf [OF wf assms(1)] by simp
  then show ?thesis
    using wf assms(1)
    by (simp add: Let_def virHashAddEntry_def virHashUpdateEntry_def add_new_size
        update_present_size remove_success_size)
qed

theorem size_counts_distinct_keys_witness:
  "(2 :: virHashTablePtr) \<noteq> NULL \<and> length scenario_ops < 2 ^ 64 \<and>
   virHashSize 2 (run_ops sample_hash 2 scenario_ops (snd (virHashNew 2 0 7 empty_world))) = 1 \<and>
   card {n. virHashHasEntry sample_hash 2 (Some n)
              (run_ops sample_hash 2 scenario_ops (snd (virHashNew 2 0 7 empty_world)))} = 1"
proof -
  have a: "(2 :: virHashTablePtr) \<noteq> NULL" by simp
  have b: "length scenario_ops < 2 ^ 64" by (simp add: scenario_ops_def)
  show ?thesis
    using size_counts_distinct_keys [OF a b, of sample_hash 0 7 empty_world] a b
    by (simp add: Let_def scenario_size)
qed

subsection \<open>C2: when insertion grows the table\<close>

text \<open>
  C2, as the code has it.  An insertion of a new key returns 0 and appends the entry to
  the chain of its bucket.  \<open>virHashGrow\<close> is called, for 8 times the capacity, exactly
  when that chain held more than 8 entries before the append, that is when the grown
  chain has more than 9.  A capacity outside \<open>[8, 16384]\<close> makes \<open>virHashGrow\<close> return
  \<open>-1\<close> and change nothing, and the insertion still returns 0; otherwise the table is
  rechained.
\<close>

theorem insertion_grow_policy:
  assumes "wf_table H (heap w p)" and "p \<noteq> NULL" and "\<not> virHashHasEntry H p (Some n) w"
  shows "let t = heap w p;
             k = unat (virHashComputeKey H t n);
             chain = table t ! k;
             sz = 8 * size_tab t;
             t1 = append_entry H t n userdata;
             w1 = w\<lparr>heap := (heap w)(p := t1)\<rparr>;
             r = virHashAddOrUpdateEntry H p (Some n) userdata is_update w
         in fst r = 0 \<and>
            table t1 ! k = chain @ [\<lparr>name = n, payload = userdata\<rparr>] \<and>
            snd r = (if 8 < length chain then snd (virHashGrow H p sz w1) else w1) \<and>
            (sz < 8 \<or> 16384 < sz \<longrightarrow> virHashGrow H p sz w1 = (- 1, w1)) \<and>
            (8 \<le> sz \<and> sz \<le> 16384 \<longrightarrow>
               virHashGrow H p sz w1 = (0, w1\<lparr>heap := (heap w1)(p := grow_table H t1 sz)\<rparr>))"
proof -
  let ?t = "heap w p"
  let ?k = "unat (virHashComputeKey H ?t n)"
  have k: "?k < length (table ?t)" using assms(1) by (rule wf_key_less)
  have l: "length (table ?t) = unat (size_tab ?t)"
    using assms(1) by (simp add: wf_table_def)
  have len: "(8 :: size_t) < of_nat (length (table ?t ! ?k)) \<longleftrightarrow> 8 < length (table ?t ! ?k)"
    using wf_chain_length [OF assms(1)] by (rule size_t_of_nat_less)
  have c: "table (append_entry H ?t n userdata) ! ?k
             = table ?t ! ?k @ [\<lparr>name = n, payload = userdata\<rparr>]"
    using k by (simp add: append_entry_def Let_def)
  have g: "virHashGrow H p sz (w\<lparr>heap := (heap w)(p := append_entry H ?t n userdata)\<rparr>)
      = (0, w\<lparr>heap := (heap w)(p := grow_table H (append_entry H ?t n userdata) sz)\<rparr>)"
    if "8 \<le> sz" "sz \<le> 16384" for sz
    using assms(2) that l by (subst virHashGrow_success) (simp_all add: append_entry_fields)
  show ?thesis
    using len c g
    by (simp add: Let_def addOrUpdate_new [OF assms(2,3)] MAX_HASH_LEN_def virHashGrow_rejected)
qed

theorem insertion_grow_policy_witness:
  "wf_table sample_hash (heap world_9 2) \<and> (2 :: virHashTablePtr) \<noteq> NULL \<and>
   \<not> virHashHasEntry sample_hash 2 (Some ''j'') world_9 \<and>
   length (table (heap world_9 2) ! 1) = 9 \<and>
   fst (virHashAddEntry sample_hash 2 (Some ''j'') 20 world_9) = 0 \<and>
   size_tab (heap world_9 2) = 32 \<and>
   size_tab (heap (snd (virHashAddEntry sample_hash 2 (Some ''j'') 20 world_9)) 2) = 256"
proof -
  have wf: "wf_table sample_hash (heap world_9 2)"
    unfolding world_9_def virHashAddEntry_def
    using world_8_wf by (rule addOrUpdate_wf) (simp add: world_8_eval)
  have p: "(2 :: virHashTablePtr) \<noteq> NULL" by simp
  have a: "\<not> virHashHasEntry sample_hash 2 (Some ''j'') world_9"
    by (simp add: world_9_eval virHashHasEntry_def virHashGetEntry_def Let_def
        virHashComputeKey_def sample_hash_def strlen_def)
  have k: "unat (virHashComputeKey sample_hash (heap world_9 2) ''j'') = 1"
    by (simp add: world_9_eval virHashComputeKey_def sample_hash_def strlen_def)
  have e: "length (table (heap world_9 2) ! Suc 0) = 9" "size_tab (heap world_9 2) = 32"
    by (simp_all add: world_9_eval)
  show ?thesis
    using insertion_grow_policy [OF wf p a, of 20 False] wf a
    by (simp add: Let_def k e virHashAddEntry_def grow_table_fields)
qed

text \<open>
  C2 as stated fails: the chain of bucket 1 holds 8 entries, a ninth is appended, so the
  chain just grown exceeds 8, and the capacity stays 32.
\<close>

theorem no_grow_at_nine_entries:
  "wf_table sample_hash (heap world_8 2) \<and>
   \<not> virHashHasEntry sample_hash 2 (Some ''i'') world_8 \<and>
   unat (virHashComputeKey sample_hash (heap world_8 2) ''i'') = 1 \<and>
   length (table (heap world_8 2) ! 1) = 8 \<and>
   fst (virHashAddEntry sample_hash 2 (Some ''i'') 19 world_8) = 0 \<and>
   length (table (heap (snd (virHashAddEntry sample_hash 2 (Some ''i'') 19 world_8)) 2) ! 1) = 9 \<and>
   size_tab (heap world_8 2) = 32 \<and>
   size_tab (heap (snd (virHashAddEntry sample_hash 2 (Some ''i'') 19 world_8)) 2) = 32"
proof -
  have a: "\<not> virHashHasEntry sample_hash 2 (Some ''i'') world_8"
    by (simp add: world_8_eval virHashHasEntry_def virHashGetEntry_def Let_def
        virHashComputeKey_def sample_hash_def strlen_def)
  have k: "unat (virHashComputeKey sample_hash (heap world_8 2) ''i'') = 1"
    by (simp add: world_8_eval virHashComputeKey_def sample_hash_def strlen_def)
  have r: "fst (virHashAddEntry sample_hash 2 (Some ''i'') 19 world_8) = 0"
    by (simp add: virHashAddEntry_def virHashAddOrUpdateEntry_def Let_def k a
        world_8_eval virHashComputeKey_def sample_hash_def strlen_def MAX_HASH_LEN_def)
  show ?thesis
    using world_8_wf a k r world_9_eval
    by (simp add: world_9_def [symmetric]) (simp add: world_8_eval)
qed

subsection \<open>C3: growing keeps the mapping\<close>

text \<open>
  C3.  When \<open>virHashGrow\<close> succeeds on a well-formed table, the table has the new
  size, holds the same entries (as a multiset), every lookup gives what it gave before
  (no key appears, disappears or changes its payload), and every entry lies in the
  bucket whose index is the hash of its name, under the table's seed, modulo the new
  size.
\<close>

theorem grow_preserves_mapping:
  assumes "wf_table H (heap w p)" and "fst (virHashGrow H p sz w) = 0"
  shows "let t = heap w p;
             w' = snd (virHashGrow H p sz w);
             t' = heap w' p
         in size_tab t' = sz \<and> length (table t') = unat sz \<and>
            (\<forall>nm. virHashGetEntry H p nm w' = virHashGetEntry H p nm w) \<and>
            (\<forall>nm. virHashLookup H p nm w' = virHashLookup H p nm w) \<and>
            (\<forall>nm. virHashHasEntry H p nm w' = virHashHasEntry H p nm w) \<and>
            mset (concat (table t')) = mset (concat (table t)) \<and>
            (\<forall>i < unat sz. \<forall>e \<in> set (table t' ! i).
               unat ((ucast (H (name e) (strlen (name e)) (seed t)) :: size_t) mod sz) = i) \<and>
            seed t' = seed t \<and> nbElems t' = nbElems t \<and> dataFree t' = dataFree t \<and>
            wf_table H t'"
proof -
  let ?t = "heap w p"
  let ?w' = "snd (virHashGrow H p sz w)"
  let ?t' = "grow_table H ?t sz"
  from assms(2) have p: "p \<noteq> NULL" and sz: "8 \<le> sz" "sz \<le> 16384"
    by (simp_all add: grow_success_iff)
  have nz: "sz \<noteq> 0" using sz(1) by auto
  have l: "length (table ?t) = unat (size_tab ?t)"
    using assms(1) by (simp add: wf_table_def)
  have h: "heap ?w' p = ?t'"
    by (simp add: virHashGrow_success [OF p sz l])
  have wf': "wf_table H (heap ?w' p)"
    using grow_table_wf [OF assms(1) nz] by (simp add: h)
  have m: "mset (concat (table ?t')) = mset (concat (table ?t))"
    using nz by (rule grow_table_mset)
  then have s: "set (concat (table (heap ?w' p))) = set (concat (table ?t))"
    using mset_eq_setD h by metis
  have g: "virHashGetEntry H p nm ?w' = virHashGetEntry H p nm w" for nm
  proof (cases nm)
    case None
    then show ?thesis by (simp add: virHashGetEntry_def)
  next
    case (Some n)
    have "virHashGetEntry H p (Some n) ?w' = Some e \<longleftrightarrow> virHashGetEntry H p (Some n) w = Some e"
      for e
      by (simp only: getEntry_wf [OF wf' p] getEntry_wf [OF assms(1) p] s)
    then show ?thesis
      using Some by (metis option.exhaust)
  qed
  have b: "\<forall>i < unat sz. \<forall>e \<in> set (table ?t' ! i).
             unat ((ucast (H (name e) (strlen (name e)) (seed ?t)) :: size_t) mod sz) = i"
    using grow_table_bucket_inv [OF nz, of H ?t]
    by (simp add: bucket_inv_def grow_table_fields virHashComputeKey_def Let_def)
  show ?thesis
    using g b m wf' h
    by (simp add: Let_def grow_table_fields virHashLookup_def virHashHasEntry_def)
qed

theorem grow_preserves_mapping_witness:
  "wf_table sample_hash (heap world_a 2) \<and>
   fst (virHashGrow sample_hash 2 256 world_a) = 0 \<and>
   size_tab (heap (snd (virHashGrow sample_hash 2 256 world_a)) 2) = 256 \<and>
   virHashLookup sample_hash 2 (Some ''a'') (snd (virHashGrow sample_hash 2 256 world_a)) = 5 \<and>
   \<not> virHashHasEntry sample_hash 2 (Some ''bb'') (snd (virHashGrow sample_hash 2 256 world_a))"
proof -
  have g: "fst (virHashGrow sample_hash 2 256 world_a) = 0"
    by (simp add: grow_success_iff)
  have b: "\<not> virHashHasEntry sample_hash 2 (Some ''bb'') world_a"
    by (simp add: world_a_eval virHashHasEntry_def virHashGetEntry_def Let_def
        virHashComputeKey_def sample_hash_def strlen_def)
  show ?thesis
    using grow_preserves_mapping [OF world_a_wf g] world_a_wf g b
    by (simp add: Let_def world_a_lookup)
qed

subsection \<open>C4: adding an existing key\<close>

text \<open>
  C4.  In a table that contains a key, \<open>virHashAddEntry\<close> of that key returns \<open>-1\<close>
  and reports the duplicate-key error; nothing else changes: the store of tables is the
  same (so the payload of the key stays in place and the element count is the same) and
  \<open>dataFree\<close> is not called.
\<close>

theorem add_existing_key_fails:
  assumes "virHashHasEntry H p (Some n) w"
  shows "virHashAddEntry H p (Some n) userdata w =
           (-1, w\<lparr>errors := errors w @
                   [VIR_ERR_INTERNAL_ERROR ''Duplicate hash table key'' n]\<rparr>) \<and>
         heap (snd (virHashAddEntry H p (Some n) userdata w)) = heap w \<and>
         freed (snd (virHashAddEntry H p (Some n) userdata w)) = freed w \<and>
         virHashLookup H p (Some n) (snd (virHashAddEntry H p (Some n) userdata w))
           = virHashLookup H p (Some n) w \<and>
         virHashHasEntry H p (Some n) (snd (virHashAddEntry H p (Some n) userdata w)) \<and>
         virHashSize p (snd (virHashAddEntry H p (Some n) userdata w)) = virHashSize p w"
proof -
  have "virHashAddEntry H p (Some n) userdata w =
           (-1, w\<lparr>errors := errors w @
                   [VIR_ERR_INTERNAL_ERROR ''Duplicate hash table key'' n]\<rparr>)"
    using assms
    by (auto simp: virHashHasEntry_def virHashGetEntry_def virHashAddEntry_def
        virHashAddOrUpdateEntry_def Let_def split: if_splits option.splits)
  then show ?thesis
    using assms by simp
qed

theorem add_existing_key_fails_witness:
  "virHashHasEntry sample_hash 2 (Some ''a'') world_a \<and>
   fst (virHashAddEntry sample_hash 2 (Some ''a'') 9 world_a) = -1 \<and>
   errors (snd (virHashAddEntry sample_hash 2 (Some ''a'') 9 world_a))
     = [VIR_ERR_INTERNAL_ERROR ''Duplicate hash table key'' ''a''] \<and>
   virHashLookup sample_hash 2 (Some ''a'')
     (snd (virHashAddEntry sample_hash 2 (Some ''a'') 9 world_a)) = 5"
proof -
  have e: "errors world_a = []"
    by (simp add: world_a_eval)
  show ?thesis
    using add_existing_key_fails [OF world_a_has, of 9] world_a_has
    by (simp add: world_a_lookup e)
qed

subsection \<open>C5: updating an existing key\<close>

text \<open>
  C5.  In a well-formed table that contains a key, \<open>virHashUpdateEntry\<close> of that key
  returns 0, calls \<open>dataFree\<close> (when the table has one) exactly once, on the old
  payload, and writes the new payload into the entry where it is: same bucket, same
  position in the chain, same name, every other entry and the element count untouched.
  A lookup of the key then gives the new payload.
\<close>

theorem update_existing_key:
  assumes "wf_table H (heap w p)" and "virHashHasEntry H p (Some n) w"
  shows "let t = heap w p;
             k = unat (virHashComputeKey H t n);
             chain = table t ! k;
             i = the (chain_index n chain);
             old = virHashLookup H p (Some n) w;
             w' = snd (virHashUpdateEntry H p (Some n) userdata w)
         in fst (virHashUpdateEntry H p (Some n) userdata w) = 0 \<and>
            i < length chain \<and> name (chain ! i) = n \<and> payload (chain ! i) = old \<and>
            freed w' = freed w @ (if dataFree t = NULL then [] else [(dataFree t, old)]) \<and>
            errors w' = errors w \<and>
            heap w' = (heap w)
              (p := t\<lparr>table := (table t)[k := chain[i := \<lparr>name = n, payload = userdata\<rparr>]]\<rparr>) \<and>
            virHashLookup H p (Some n) w' = userdata \<and>
            virHashHasEntry H p (Some n) w' \<and>
            virHashSize p w' = virHashSize p w"
proof -
  let ?t = "heap w p"
  let ?k = "unat (virHashComputeKey H ?t n)"
  let ?c = "table ?t ! ?k"
  from hasEntry_index [OF assms(2)] obtain i where p: "p \<noteq> NULL" and i: "chain_index n ?c = Some i"
    by auto
  from chain_index_Some [OF i] have il: "i < length ?c" and nm: "name (?c ! i) = n"
    by auto
  have k: "?k < length (table ?t)" using assms(1) by (rule wf_key_less)
  have e: "(?c ! i)\<lparr>payload := userdata\<rparr> = \<lparr>name = n, payload = userdata\<rparr>"
    using nm by (cases "?c ! i") simp
  let ?t' = "?t\<lparr>table := (table ?t)[?k := ?c[i := \<lparr>name = n, payload = userdata\<rparr>]]\<rparr>"
  let ?w' = "snd (virHashUpdateEntry H p (Some n) userdata w)"
  have r: "virHashUpdateEntry H p (Some n) userdata w =
      (0, w\<lparr>freed := freed w @ (if dataFree ?t = NULL then [] else [(dataFree ?t, payload (?c ! i))]),
             heap := (heap w)(p := ?t')\<rparr>)"
    using p i e by (simp add: virHashUpdateEntry_def virHashAddOrUpdateEntry_def Let_def)
  have h: "heap ?w' = (heap w)(p := ?t')"
    by (simp add: r)
  have i': "chain_index n (table (heap ?w' p) ! unat (virHashComputeKey H (heap ?w' p) n)) = Some i"
    using chain_index_update [OF i, of userdata] k e by (simp add: h)
  have "virHashLookup H p (Some n) ?w' = userdata"
    using lookup_index [OF p i'] k il by (simp add: h)
  moreover have "virHashHasEntry H p (Some n) ?w'"
    using i' p by (simp add: hasEntry_chain)
  moreover have "virHashSize p ?w' = virHashSize p w"
    using p by (simp add: virHashSize_def h)
  ultimately show ?thesis
    using i il nm lookup_index [OF p i] h by (simp add: Let_def r)
qed

theorem update_existing_key_witness:
  "wf_table sample_hash (heap world_a 2) \<and>
   virHashHasEntry sample_hash 2 (Some ''a'') world_a \<and>
   fst (virHashUpdateEntry sample_hash 2 (Some ''a'') 9 world_a) = 0 \<and>
   freed (snd (virHashUpdateEntry sample_hash 2 (Some ''a'') 9 world_a)) = [(7, 5)] \<and>
   virHashLookup sample_hash 2 (Some ''a'')
     (snd (virHashUpdateEntry sample_hash 2 (Some ''a'') 9 world_a)) = 9"
proof -
  have f: "freed world_a = []" "dataFree (heap world_a 2) = 7"
    by (simp_all add: world_a_eval)
  show ?thesis
    using update_existing_key [OF world_a_wf world_a_has, of 9] world_a_wf world_a_has
    by (simp add: Let_def world_a_lookup f)
qed

subsection \<open>C6: removing a key\<close>

text \<open>
  C6.  In a well-formed table that contains a key, \<open>virHashRemoveEntry\<close> of that key
  returns 0, calls \<open>dataFree\<close> (when the table has one) on the payload, unlinks the
  entry from its chain and takes one from the element count; the key is then absent.
  For an absent key, a null table or a null name it returns \<open>-1\<close> and the state,
  hence the size and every entry, is what it was.
\<close>

theorem remove_entry:
  shows "(wf_table H (heap w p) \<and> virHashHasEntry H p (Some n) w \<longrightarrow>
            (let t = heap w p;
                 k = unat (virHashComputeKey H t n);
                 chain = table t ! k;
                 i = the (chain_index n chain);
                 old = virHashLookup H p (Some n) w;
                 w' = snd (virHashRemoveEntry H p (Some n) w)
             in fst (virHashRemoveEntry H p (Some n) w) = 0 \<and>
                i < length chain \<and> name (chain ! i) = n \<and> payload (chain ! i) = old \<and>
                freed w' = freed w @ (if dataFree t = NULL then [] else [(dataFree t, old)]) \<and>
                errors w' = errors w \<and>
                heap w' = (heap w)
                  (p := t\<lparr>table := (table t)[k := take i chain @ drop (Suc i) chain],
                          nbElems := nbElems t - 1\<rparr>) \<and>
                \<not> virHashHasEntry H p (Some n) w' \<and>
                virHashSize p w' = virHashSize p w - 1 \<and>
                unat (virHashSize p w) = Suc (unat (virHashSize p w')))) \<and>
         (\<not> virHashHasEntry H p nm w \<longrightarrow> virHashRemoveEntry H p nm w = (- 1, w)) \<and>
         virHashRemoveEntry H NULL nm w = (- 1, w) \<and>
         virHashRemoveEntry H p None w = (- 1, w)"
proof -
  have "?thesis" if wf: "wf_table H (heap w p)" and has: "virHashHasEntry H p (Some n) w"
  proof -
    let ?t = "heap w p"
    let ?k = "unat (virHashComputeKey H ?t n)"
    let ?c = "table ?t ! ?k"
    from hasEntry_index [OF has] obtain i where p: "p \<noteq> NULL" and i: "chain_index n ?c = Some i"
      by auto
    from chain_index_Some [OF i] have il: "i < length ?c" and nm: "name (?c ! i) = n"
      by auto
    have k: "?k < length (table ?t)" using wf by (rule wf_key_less)
    let ?t' = "?t\<lparr>table := (table ?t)[?k := take i ?c @ drop (Suc i) ?c], nbElems := nbElems ?t - 1\<rparr>"
    let ?w' = "snd (virHashRemoveEntry H p (Some n) w)"
    have h: "heap ?w' = (heap w)(p := ?t')"
      by (simp add: remove_present [OF p i] Let_def)
    have wf': "wf_table H (heap ?w' p)"
      using wf by (rule remove_wf)
    have "n \<notin> name ` set (concat (table (heap ?w' p)))"
      using unlink_wf(2) [OF wf k il] nm by (simp add: h)
    then have gone: "\<not> virHashHasEntry H p (Some n) ?w'"
      using hasEntry_wf [OF wf' p] by simp
    have "length (concat (table ?t)) = Suc (length (concat (table ?t')))"
      using unlink_mset [OF k il, THEN arg_cong, of size] by simp
    then have "unat (nbElems ?t) = Suc (unat (nbElems ?t'))"
      using wf wf' by (simp add: wf_table_def h)
    then have sz: "unat (virHashSize p w) = Suc (unat (virHashSize p ?w'))"
      using p by (simp add: virHashSize_def h)
    show ?thesis
      using i il nm lookup_index [OF p i] gone sz p remove_absent [of H p nm w]
      by (auto simp: Let_def remove_present [OF p i] virHashSize_def virHashRemoveEntry_def
          split: option.splits)
  qed
  moreover have "?thesis" if "\<not> (wf_table H (heap w p) \<and> virHashHasEntry H p (Some n) w)"
    using that remove_absent [of H p nm w]
    by (auto simp: virHashRemoveEntry_def split: option.splits)
  ultimately show ?thesis by blast
qed

theorem remove_entry_witness:
  "wf_table sample_hash (heap world_a 2) \<and>
   virHashHasEntry sample_hash 2 (Some ''a'') world_a \<and>
   fst (virHashRemoveEntry sample_hash 2 (Some ''a'') world_a) = 0 \<and>
   freed (snd (virHashRemoveEntry sample_hash 2 (Some ''a'') world_a)) = [(7, 5)] \<and>
   virHashSize 2 world_a = 1 \<and>
   virHashSize 2 (snd (virHashRemoveEntry sample_hash 2 (Some ''a'') world_a)) = 0 \<and>
   \<not> virHashHasEntry sample_hash 2 (Some ''bb'') world_a \<and>
   virHashRemoveEntry sample_hash 2 (Some ''bb'') world_a = (- 1, world_a)"
proof -
  have f: "freed world_a = []" "dataFree (heap world_a 2) = 7" "virHashSize 2 world_a = 1"
    by (simp_all add: world_a_eval virHashSize_def)
  have b: "\<not> virHashHasEntry sample_hash 2 (Some ''bb'') world_a"
    by (simp add: world_a_eval virHashHasEntry_def virHashGetEntry_def Let_def
        virHashComputeKey_def sample_hash_def strlen_def)
  show ?thesis
    using remove_entry [of sample_hash world_a 2 "''a''" "Some ''bb''"] world_a_wf world_a_has b
    by (simp add: Let_def world_a_lookup f)
qed

subsection \<open>C7: stealing a payload\<close>

text \<open>
  C7, as the code has it.  In a well-formed table whose lookup of a key gives a payload
  that is not null, \<open>virHashSteal\<close> of that key returns that payload and unlinks the
  entry, so that the key is absent afterwards; \<open>dataFree\<close> is not called, and the
  table's \<open>dataFree\<close> field is what it was.
\<close>

theorem steal_nonnull_payload:
  assumes "wf_table H (heap w p)" and "virHashLookup H p (Some n) w \<noteq> NULL"
  shows "let t = heap w p;
             k = unat (virHashComputeKey H t n);
             chain = table t ! k;
             i = the (chain_index n chain);
             w' = snd (virHashSteal H p (Some n) w)
         in virHashHasEntry H p (Some n) w \<and>
            fst (virHashSteal H p (Some n) w) = virHashLookup H p (Some n) w \<and>
            heap w' = (heap w)
              (p := t\<lparr>table := (table t)[k := take i chain @ drop (Suc i) chain],
                      nbElems := nbElems t - 1\<rparr>) \<and>
            \<not> virHashHasEntry H p (Some n) w' \<and>
            virHashLookup H p (Some n) w' = NULL \<and>
            freed w' = freed w \<and> errors w' = errors w \<and>
            virHashSize p w' = virHashSize p w - 1"
proof -
  let ?t = "heap w p"
  let ?k = "unat (virHashComputeKey H ?t n)"
  let ?c = "table ?t ! ?k"
  have has: "virHashHasEntry H p (Some n) w"
    using assms(2) lookup_absent [of H p "Some n" w] by auto
  from hasEntry_index [OF has] obtain i where p: "p \<noteq> NULL" and i: "chain_index n ?c = Some i"
    by auto
  from chain_index_Some [OF i] have il: "i < length ?c" and nm: "name (?c ! i) = n"
    by auto
  have k: "?k < length (table ?t)" using assms(1) by (rule wf_key_less)
  have pl: "payload (?c ! i) \<noteq> NULL"
    using assms(2) lookup_index [OF p i] by simp
  let ?t' = "?t\<lparr>table := (table ?t)[?k := take i ?c @ drop (Suc i) ?c], nbElems := nbElems ?t - 1\<rparr>"
  let ?w' = "snd (virHashSteal H p (Some n) w)"
  note st = steal_present [OF p i pl]
  have h: "heap ?w' = (heap w)(p := ?t')"
    by (simp add: st Let_def)
  have wf': "wf_table H (heap ?w' p)"
    using unlink_wf(1) [OF assms(1) k il] by (simp add: h)
  have "n \<notin> name ` set (concat (table (heap ?w' p)))"
    using unlink_wf(2) [OF assms(1) k il] nm by (simp add: h)
  then have gone: "\<not> virHashHasEntry H p (Some n) ?w'"
    using hasEntry_wf [OF wf' p] by simp
  show ?thesis
    using has i il nm lookup_index [OF p i] gone lookup_absent [OF gone] p
    by (simp add: Let_def st virHashSize_def)
qed

theorem steal_nonnull_payload_witness:
  "wf_table sample_hash (heap world_a 2) \<and>
   virHashLookup sample_hash 2 (Some ''a'') world_a \<noteq> NULL \<and>
   fst (virHashSteal sample_hash 2 (Some ''a'') world_a) = 5 \<and>
   \<not> virHashHasEntry sample_hash 2 (Some ''a'') (snd (virHashSteal sample_hash 2 (Some ''a'') world_a)) \<and>
   freed (snd (virHashSteal sample_hash 2 (Some ''a'') world_a)) = [] \<and>
   virHashSize 2 (snd (virHashSteal sample_hash 2 (Some ''a'') world_a)) = 0"
proof -
  have f: "freed world_a = []" "virHashSize 2 world_a = 1"
    by (simp_all add: world_a_eval virHashSize_def)
  have l: "virHashLookup sample_hash 2 (Some ''a'') world_a \<noteq> NULL"
    by (simp add: world_a_lookup)
  show ?thesis
    using steal_nonnull_payload [OF world_a_wf l] world_a_wf
    by (simp add: Let_def world_a_lookup f)
qed

text \<open>
  C7 as stated fails for a key stored with the null payload: the table contains
  \<open>''a''\<close>, and \<open>virHashSteal\<close> leaves the entry in the table.
\<close>

theorem steal_leaves_null_entry:
  "wf_table sample_hash (heap world_null 2) \<and>
   virHashHasEntry sample_hash 2 (Some ''a'') world_null \<and>
   virHashHasEntry sample_hash 2 (Some ''a'')
     (snd (virHashSteal sample_hash 2 (Some ''a'') world_null)) \<and>
   virHashSize 2 (snd (virHashSteal sample_hash 2 (Some ''a'') world_null)) = 1"
  using world_null_wf world_null_has
  by (simp add: virHashSteal_def world_null_lookup) (simp add: world_null_eval virHashSize_def)

subsection \<open>C8: comparing two tables\<close>

text \<open>
  C8, as the code has it.  \<open>virHashEqual\<close> is true of a table and itself (two equal
  pointers, null included).  Of two different pointers it is false when one is null or
  the element counts differ.  Otherwise, the first table being well formed, it is true
  exactly when, for every key of the first table, the lookup of that key in the second
  table is not null and the comparator, applied to it and to the first table's payload
  in this order, returns 0.
\<close>

theorem equal_tables:
  "virHashEqual H t t cmp w \<and>
   (t1 \<noteq> t2 \<and> (t1 = NULL \<or> t2 = NULL \<or> virHashSize t1 w \<noteq> virHashSize t2 w) \<longrightarrow>
      \<not> virHashEqual H t1 t2 cmp w) \<and>
   (t1 \<noteq> t2 \<and> t1 \<noteq> NULL \<and> t2 \<noteq> NULL \<and> virHashSize t1 w = virHashSize t2 w \<and>
    wf_table H (heap w t1) \<longrightarrow>
      (virHashEqual H t1 t2 cmp w \<longleftrightarrow>
         (\<forall>n. virHashHasEntry H t1 (Some n) w \<longrightarrow>
            virHashLookup H t2 (Some n) w \<noteq> NULL \<and>
            cmp (virHashLookup H t2 (Some n) w) (virHashLookup H t1 (Some n) w) = 0)))"
proof (intro conjI impI)
  show "virHashEqual H t t cmp w"
    by (simp add: virHashEqual_def)
next
  assume "t1 \<noteq> t2 \<and> (t1 = NULL \<or> t2 = NULL \<or> virHashSize t1 w \<noteq> virHashSize t2 w)"
  then show "\<not> virHashEqual H t1 t2 cmp w"
    by (auto simp: virHashEqual_def)
next
  assume a: "t1 \<noteq> t2 \<and> t1 \<noteq> NULL \<and> t2 \<noteq> NULL \<and> virHashSize t1 w = virHashSize t2 w \<and>
    wf_table H (heap w t1)"
  then have "length (table (heap w t1)) = unat (size_tab (heap w t1))"
    by (simp add: wf_table_def)
  with a have "virHashEqual H t1 t2 cmp w \<longleftrightarrow>
           (\<forall>e \<in> set (concat (table (heap w t1))). equal_entry H w t2 cmp e)"
    by (intro virHashEqual_entries) simp_all
  also have "\<dots> \<longleftrightarrow> (\<forall>n. virHashHasEntry H t1 (Some n) w \<longrightarrow>
            virHashLookup H t2 (Some n) w \<noteq> NULL \<and>
            cmp (virHashLookup H t2 (Some n) w) (virHashLookup H t1 (Some n) w) = 0)"
    using a by (intro equal_entry_keys) simp_all
  finally show "virHashEqual H t1 t2 cmp w \<longleftrightarrow>
         (\<forall>n. virHashHasEntry H t1 (Some n) w \<longrightarrow>
            virHashLookup H t2 (Some n) w \<noteq> NULL \<and>
            cmp (virHashLookup H t2 (Some n) w) (virHashLookup H t1 (Some n) w) = 0)" .
qed

theorem equal_tables_witness:
  "virHashEqual sample_hash 2 2 cmp_ptr world_two \<and>
   (2 :: virHashTablePtr) \<noteq> 3 \<and> (2 :: virHashTablePtr) \<noteq> NULL \<and> (3 :: virHashTablePtr) \<noteq> NULL \<and>
   virHashSize 2 world_two = virHashSize 3 world_two \<and>
   wf_table sample_hash (heap world_two 2) \<and>
   virHashEqual sample_hash 2 3 cmp_ptr world_two \<and>
   virHashHasEntry sample_hash 2 (Some ''a'') world_two \<and>
   virHashLookup sample_hash 3 (Some ''a'') world_two \<noteq> NULL \<and>
   cmp_ptr (virHashLookup sample_hash 3 (Some ''a'') world_two)
           (virHashLookup sample_hash 2 (Some ''a'') world_two) = 0 \<and>
   \<not> virHashEqual sample_hash 2 NULL cmp_ptr world_two"
proof -
  have s: "virHashSize 2 world_two = virHashSize 3 world_two"
    by (simp add: world_two_eval virHashSize_def)
  have h: "virHashHasEntry sample_hash 2 (Some ''a'') world_two"
    by (simp add: world_two_eval virHashHasEntry_def virHashGetEntry_def Let_def
        virHashComputeKey_def sample_hash_def strlen_def)
  note t = equal_tables [of sample_hash 2 cmp_ptr world_two 2 3]
  note u = equal_tables [of sample_hash 2 cmp_ptr world_two 2 NULL]
  from t s world_two_wf world_two_equal h
  have "virHashLookup sample_hash 3 (Some ''a'') world_two \<noteq> NULL \<and>
        cmp_ptr (virHashLookup sample_hash 3 (Some ''a'') world_two)
           (virHashLookup sample_hash 2 (Some ''a'') world_two) = 0"
    by simp
  then show ?thesis
    using t u s world_two_wf world_two_equal h by simp
qed

text \<open>
  C8 as stated fails when payloads are null: both tables hold the single key \<open>''a''\<close>,
  the comparator returns 0 on the two payloads, and \<open>virHashEqual\<close> is false.
\<close>

theorem equal_rejects_null_payloads:
  "(2 :: virHashTablePtr) \<noteq> 3 \<and>
   wf_table sample_hash (heap world_two_null 2) \<and>
   virHashSize 2 world_two_null = 1 \<and> virHashSize 3 world_two_null = 1 \<and>
   virHashHasEntry sample_hash 2 (Some ''a'') world_two_null \<and>
   virHashHasEntry sample_hash 3 (Some ''a'') world_two_null \<and>
   cmp_always_equal (virHashLookup sample_hash 3 (Some ''a'') world_two_null)
                    (virHashLookup sample_hash 2 (Some ''a'') world_two_null) = 0 \<and>
   \<not> virHashEqual sample_hash 2 3 cmp_always_equal world_two_null"
proof -
  have h: "virHashHasEntry sample_hash 2 (Some ''a'') world_two_null"
    "virHashHasEntry sample_hash 3 (Some ''a'') world_two_null"
    by (simp_all add: world_two_null_eval virHashHasEntry_def virHashGetEntry_def Let_def
        virHashComputeKey_def sample_hash_def strlen_def)
  have s: "virHashSize 2 world_two_null = 1" "virHashSize 3 world_two_null = 1"
    by (simp_all add: world_two_null_eval virHashSize_def)
  show ?thesis
    using h s world_two_null_wf world_two_null_not_equal
    by (simp add: cmp_always_equal_def)
qed

subsection \<open>C9: the sorted snapshot\<close>

text \<open>
  C9.  For a well-formed table (with fewer than \<open>2 ^ 64 - 1\<close> entries, so that
  \<open>nbElems + 1\<close> does not wrap), \<open>virHashGetItems\<close> with \<open>sortKeys\<close> returns an array
  of \<open>virHashSize\<close> slots followed by the slot with the null key.  The slots before the
  last hold exactly the (name, payload) pairs of the table, each once, in strictly
  increasing byte-wise order of the names.  \<open>virHashForEachSorted\<close> passes the names to
  the callback in that order; for a table whose keys are \<open>''b''\<close>, \<open>''a''\<close>, \<open>''c''\<close>
  the order is \<open>''a''\<close>, \<open>''b''\<close>, \<open>''c''\<close>.
\<close>

theorem getItems_sorted:
  assumes "wf_table H (heap w p)" and "p \<noteq> NULL" and "virHashSize p w \<noteq> - 1"
  shows "let n = unat (virHashSize p w);
             r = virHashGetItems p True w;
             items = the (fst r)
         in fst r \<noteq> None \<and> snd r = virHashSize p w \<and>
            length items = n + 1 \<and>
            items ! n = \<lparr>key = None, value_kv = NULL\<rparr> \<and>
            (\<forall>it \<in> set (take n items). key it \<noteq> None) \<and>
            mset (take n items) = image_mset item_of (mset (concat (table (heap w p)))) \<and>
            (\<forall>nm v. \<lparr>key = Some nm, value_kv = v\<rparr> \<in> set (take n items) \<longleftrightarrow>
               virHashHasEntry H p (Some nm) w \<and> virHashLookup H p (Some nm) w = v) \<and>
            distinct (map item_name (take n items)) \<and>
            sorted_wrt (\<lambda>a b. strcmp (item_name a) (item_name b) < 0) (take n items) \<and>
            sorted_wrt (<) (map item_name (take n items)) \<and>
            snd (virHashForEachSorted p record_name [] w) = map item_name (take n items) \<and>
            ({nm. virHashHasEntry H p (Some nm) w} = {''b'', ''a'', ''c''} \<longrightarrow>
               virHashForEachSorted p record_name [] w = (0, [''a'', ''b'', ''c'']))"
proof -
  let ?es = "concat (table (heap w p))"
  let ?q = "qsort virHashGetItemsKeySorter (map item_of ?es)"
  have n: "unat (virHashSize p w) = length ?es"
    using assms(1,2) by (simp add: wf_table_def virHashSize_def)
  have g: "virHashGetItems p True w = (Some (?q @ [sentinel]), virHashSize p w)"
    using getItems_wf [OF assms, of True] by simp
  have lq: "length ?q = length ?es"
    by (simp add: length_qsort)
  have tk: "take (length ?es) (?q @ [sentinel]) = ?q"
    using lq by simp
  have m: "mset ?q = image_mset item_of (mset ?es)"
    by (simp add: mset_qsort)
  then have st: "set ?q = item_of ` set ?es"
    by (metis mset_map set_map mset_eq_setD)
  have k: "\<forall>it \<in> set ?q. key it \<noteq> None"
    unfolding st by (auto simp: item_of_def)
  have "mset (map item_name ?q) = mset (map name ?es)"
    using m by (metis (no_types, lifting) mset_map multiset.map_comp comp_def item_name_item_of
        multiset.map_cong0)
  then have d: "distinct (map item_name ?q)"
    using assms(1) by (metis mset_eq_imp_distinct_iff wf_table_def)
  have so: "sorted (map item_name ?q)"
    by (rule sorted_qsort)
  have ss: "sorted_wrt (<) (map item_name ?q)"
    using so d by (simp add: strict_sorted_iff)
  then have sc: "sorted_wrt (\<lambda>a b. strcmp (item_name a) (item_name b) < 0) ?q"
    by (simp add: sorted_wrt_map strcmp_sign)
  have fe: "virHashForEachSorted p record_name [] w = (0, map item_name ?q)"
    using forEach_items_record [OF k, of "[]" "[]"] by (simp add: virHashForEachSorted_def g)
  have it: "\<lparr>key = Some nm, value_kv = v\<rparr> \<in> set ?q \<longleftrightarrow>
               virHashHasEntry H p (Some nm) w \<and> virHashLookup H p (Some nm) w = v" for nm v
    using item_in_snapshot [OF assms(1,2)] by (simp add: st)
  have abc: "map item_name ?q = [''a'', ''b'', ''c'']"
    if "{nm. virHashHasEntry H p (Some nm) w} = {''b'', ''a'', ''c''}"
  proof -
    have "set (map item_name ?q) = name ` set ?es"
      using st by (simp add: image_image)
    also have "\<dots> = {nm. virHashHasEntry H p (Some nm) w}"
      using hasEntry_wf [OF assms(1,2)] by auto
    finally have "set (map item_name ?q) = set [''a'', ''b'', ''c'']"
      using that by auto
    moreover have "sorted [''a'', ''b'', ''c'']" "distinct [''a'', ''b'', ''c'']"
      by simp_all
    ultimately show ?thesis
      using so d by (metis sorted_distinct_set_unique)
  qed
  show ?thesis
    using k m d sc ss fe it abc
    by (simp add: Let_def g n tk lq nth_append sentinel_def)
qed

theorem getItems_sorted_witness:
  "wf_table sample_hash (heap world_bac 2) \<and> (2 :: virHashTablePtr) \<noteq> NULL \<and>
   virHashSize 2 world_bac \<noteq> - 1 \<and>
   {nm. virHashHasEntry sample_hash 2 (Some nm) world_bac} = {''b'', ''a'', ''c''} \<and>
   virHashForEachSorted 2 record_name [] world_bac = (0, [''a'', ''b'', ''c'']) \<and>
   virHashGetItems 2 True world_bac =
     (Some [\<lparr>key = Some ''a'', value_kv = 11\<rparr>, \<lparr>key = Some ''b'', value_kv = 12\<rparr>,
            \<lparr>key = Some ''c'', value_kv = 13\<rparr>, \<lparr>key = None, value_kv = NULL\<rparr>], 3)"
proof -
  have p: "(2 :: virHashTablePtr) \<noteq> NULL" by simp
  have s: "virHashSize 2 world_bac \<noteq> - 1"
    by (simp add: virHashSize_def world_bac_eval)
  show ?thesis
    using getItems_sorted [OF world_bac_wf p s] world_bac_wf s world_bac_keys world_bac_items
    by (simp add: Let_def)
qed

subsection \<open>C10: stealing a null payload\<close>

text \<open>
  C10.  When a key is stored with the null payload, \<open>virHashSteal\<close> of that key
  returns \<open>NULL\<close> and leaves the state as it was: the entry is still in the table and
  the element count is the same.  Stealing a key that is absent gives the same result
  and the same state.
\<close>

theorem steal_null_payload_keeps_entry:
  assumes "virHashHasEntry H p (Some n) w" and "virHashLookup H p (Some n) w = NULL"
  shows "virHashSteal H p (Some n) w = (NULL, w) \<and>
         virHashHasEntry H p (Some n) (snd (virHashSteal H p (Some n) w)) \<and>
         virHashSize p (snd (virHashSteal H p (Some n) w)) = virHashSize p w \<and>
         (\<forall>n'. \<not> virHashHasEntry H p (Some n') w \<longrightarrow>
            virHashSteal H p (Some n') w = virHashSteal H p (Some n) w)"
  using assms by (simp add: virHashSteal_def lookup_absent)

theorem steal_null_payload_keeps_entry_witness:
  "virHashHasEntry sample_hash 2 (Some ''a'') world_null \<and>
   virHashLookup sample_hash 2 (Some ''a'') world_null = NULL \<and>
   virHashSteal sample_hash 2 (Some ''a'') world_null = (NULL, world_null) \<and>
   \<not> virHashHasEntry sample_hash 2 (Some ''bb'') world_null \<and>
   virHashSteal sample_hash 2 (Some ''bb'') world_null = (NULL, world_null)"
  using steal_null_payload_keeps_entry [OF world_null_has world_null_lookup]
    world_null_has world_null_lookup world_null_absent
  by simp

end
